theory Spec2Isabelle
  imports Main "HOL-Library.Multiset" "HOL-Library.Sublist"
begin

section \<open>Python strings\<close>

text \<open>
  A Python \<open>str\<close> is a sequence of code points. It is modelled as a \<open>string\<close> in which
  every \<open>char\<close> stands for one code point of the Latin-1 range (0 to 255), so that
  \<open>length\<close> is Python's \<open>len\<close>. The line feed is \<open>CHR 0x0A\<close>.
\<close>

definition py_isspace :: "char \<Rightarrow> bool" where
  \<comment> \<open>\<open>str.isspace\<close> on one code point below 256\<close>
  "py_isspace c =
     (let n = (of_char c :: nat)
      in (9 \<le> n \<and> n \<le> 13) \<or> (28 \<le> n \<and> n \<le> 32) \<or> n = 133 \<or> n = 160)"

definition py_strip :: "string \<Rightarrow> string" where
  \<comment> \<open>\<open>s.strip()\<close>: leading and trailing whitespace removed\<close>
  "py_strip s = rev (dropWhile py_isspace (rev (dropWhile py_isspace s)))"

definition py_lower_char :: "char \<Rightarrow> char" where
  \<comment> \<open>\<open>c.lower()\<close> on one code point below 256: A-Z and the Latin-1 capitals\<close>
  "py_lower_char c =
     (let n = (of_char c :: nat)
      in if (65 \<le> n \<and> n \<le> 90) \<or> (192 \<le> n \<and> n \<le> 222 \<and> n \<noteq> 215)
         then char_of (n + 32) else c)"

definition py_lower :: "string \<Rightarrow> string" where
  "py_lower s = map py_lower_char s"

fun py_join :: "string \<Rightarrow> string list \<Rightarrow> string" where
  "py_join sep [] = []"
| "py_join sep [x] = x"
| "py_join sep (x # y # zs) = x @ sep @ py_join sep (y # zs)"

fun py_contains :: "string \<Rightarrow> string \<Rightarrow> bool" where
  \<comment> \<open>\<open>t in s\<close> on strings: \<open>t\<close> occurs in \<open>s\<close> as a contiguous substring\<close>
  "py_contains t [] = (t = [])"
| "py_contains t (c # cs) = (prefix t (c # cs) \<or> py_contains t cs)"

fun str_of_nat :: "nat \<Rightarrow> string" where
  "str_of_nat n =
     (if n < 10 then [''0123456789'' ! n]
      else str_of_nat (n div 10) @ [''0123456789'' ! (n mod 10)])"

definition str_of_int :: "int \<Rightarrow> string" where
  \<comment> \<open>\<open>str(i)\<close> of a Python integer\<close>
  "str_of_int i = (if i < 0 then CHR ''-'' # str_of_nat (nat (- i)) else str_of_nat (nat i))"

section \<open>JSON values\<close>

text \<open>
  The values the program handles are what \<open>json.loads\<close> produces: \<open>None\<close>, booleans,
  integers, floats, strings, lists and dicts with string keys. A dict is an association
  list in insertion order; a float is kept as the text of its literal. A dict of the
  program has each key once.
\<close>

datatype json =
    JNull
  | JBool bool
  | JInt int
  | JFloat string
  | JStr string
  | JList "json list"
  | JDict "(string \<times> json) list"

type_synonym dict = "(string \<times> json) list"

definition dict_get :: "dict \<Rightarrow> string \<Rightarrow> json" where
  \<comment> \<open>\<open>d.get(k)\<close>: \<open>None\<close> when the key is absent\<close>
  "dict_get d k = (case map_of d k of Some v \<Rightarrow> v | None \<Rightarrow> JNull)"

definition dict_get_default :: "dict \<Rightarrow> string \<Rightarrow> json \<Rightarrow> json" where
  \<comment> \<open>\<open>d.get(k, default)\<close>\<close>
  "dict_get_default d k dflt = (case map_of d k of Some v \<Rightarrow> v | None \<Rightarrow> dflt)"

fun dict_set :: "dict \<Rightarrow> string \<Rightarrow> json \<Rightarrow> dict" where
  \<comment> \<open>\<open>d[k] = v\<close>: an existing key keeps its position, a new key goes last\<close>
  "dict_set [] k v = [(k, v)]"
| "dict_set ((k', v') # ps) k v =
     (if k' = k then (k, v) # ps else (k', v') # dict_set ps k v)"

definition py_str :: "(json \<Rightarrow> string) \<Rightarrow> json \<Rightarrow> string" where
  \<comment> \<open>\<open>str(v)\<close>: a string is itself; every other value is rendered by \<open>repr\<close>, a
      parameter of the model\<close>
  "py_str repr v = (case v of JStr s \<Rightarrow> s | _ \<Rightarrow> repr v)"

section \<open>Exceptions\<close>

text \<open>
  The exceptions that the program meets. \<open>json.loads\<close> raises \<open>JSONDecodeError\<close> on a
  malformed text, \<open>ValueError\<close> on an integer literal with more digits than the
  interpreter converts, and \<open>RecursionError\<close> on a text nested deeper than the interpreter
  allows.
\<close>

datatype error =
    Json_decode_error
  | Value_error
  | Recursion_error
  | Environment_error
  | File_not_found
  | Attribute_error

section \<open>The found / not-found predicate and the merger\<close>

definition not_blank :: "string \<Rightarrow> bool" where
  \<comment> \<open>\<open>s.strip().lower() not in ("", "not found")\<close>\<close>
  "not_blank s = (py_lower (py_strip s) \<notin> {'''', ''not found''})"

fun is_found :: "(json \<Rightarrow> string) \<Rightarrow> json \<Rightarrow> bool" where
  "is_found repr JNull = False"
| "is_found repr (JStr s) = not_blank s"
| "is_found repr (JList xs) = (0 < length xs)"
| "is_found repr (JDict d) = list_ex (\<lambda>v. not_blank (py_str repr v)) (map snd d)"
| "is_found repr v = True"

fun merge_items :: "(json \<Rightarrow> string) \<Rightarrow> dict \<Rightarrow> dict \<Rightarrow> dict" where
  \<comment> \<open>the loop \<open>for key, val in update.items()\<close>\<close>
  "merge_items repr base [] = base"
| "merge_items repr base ((key, val) # rest) =
     (case val of
        JDict d \<Rightarrow>
          if is_found repr (dict_get d ''value'')
          then merge_items repr (dict_set base key val) rest
          else merge_items repr base rest
      | _ \<Rightarrow> merge_items repr base rest)"

definition merge_extractions :: "(json \<Rightarrow> string) \<Rightarrow> dict \<Rightarrow> json \<Rightarrow> dict" where
  "merge_extractions repr base update =
     (case update of JDict u \<Rightarrow> merge_items repr base u | _ \<Rightarrow> base)"

fun merge_chunks :: "(json \<Rightarrow> string) \<Rightarrow> dict \<Rightarrow> json list \<Rightarrow> dict" where
  \<comment> \<open>pass 1 of \<open>main\<close>: the chunk results folded into \<open>llm_result\<close> in the order they arrive\<close>
  "merge_chunks repr acc [] = acc"
| "merge_chunks repr acc (u # us) = merge_chunks repr (merge_extractions repr acc u) us"

definition copied :: "(json \<Rightarrow> string) \<Rightarrow> json \<Rightarrow> bool" where
  \<comment> \<open>the test of the loop body: \<open>val\<close> is a dict and \<open>val.get("value")\<close> is found\<close>
  "copied repr val = (case val of JDict d \<Rightarrow> is_found repr (dict_get d ''value'') | _ \<Rightarrow> False)"

definition found_entries :: "(json \<Rightarrow> string) \<Rightarrow> json \<Rightarrow> dict" where
  \<comment> \<open>the entries of an update that the merger copies\<close>
  "found_entries repr update =
     (case update of JDict u \<Rightarrow> filter (\<lambda>(k, v). copied repr v) u | _ \<Rightarrow> [])"

definition hits :: "(json \<Rightarrow> string) \<Rightarrow> string \<Rightarrow> json \<Rightarrow> json list" where
  \<comment> \<open>the values an update copies under one key\<close>
  "hits repr k update = map snd (filter (\<lambda>(k', v). k' = k) (found_entries repr update))"

fun py_repr :: "json \<Rightarrow> string" where
  \<comment> \<open>an instance of \<open>repr\<close>: exact on \<open>None\<close>, booleans and integers; a float is shown by
      its literal and a string is quoted without escapes\<close>
  "py_repr JNull = ''None''"
| "py_repr (JBool b) = (if b then ''True'' else ''False'')"
| "py_repr (JInt i) = str_of_int i"
| "py_repr (JFloat f) = f"
| "py_repr (JStr s) = [CHR 0x27] @ s @ [CHR 0x27]"
| "py_repr (JList xs) = ''['' @ py_join '', '' (map py_repr xs) @ '']''"
| "py_repr (JDict d) =
     ''{'' @ py_join '', '' (map (\<lambda>(k, v). [CHR 0x27] @ k @ [CHR 0x27] @ '': '' @ py_repr v) d) @ ''}''"

subsection \<open>Example values\<close>

definition chunk_a :: json where
  "chunk_a = JDict [(''f1'', JDict [(''value'', JStr ''X'')])]"
definition chunk_b :: json where
  "chunk_b = JDict [(''f1'', JDict [(''value'', JStr ''not found'')])]"
definition chunk_c :: json where
  "chunk_c = JDict [(''f1'', JDict [(''value'', JStr ''Y'')])]"

definition chunk_d :: json where
  "chunk_d = JDict [(''f2'', JDict [(''value'', JStr ''Y'')]), (''f1'', JStr ''Z'')]"

definition merge_base_ex :: dict where
  "merge_base_ex =
     [(''f1'', JDict [(''value'', JStr ''X'')]), (''f2'', JDict [(''value'', JStr ''Y'')])]"

definition merge_update_ex :: dict where
  "merge_update_ex =
     [(''f1'', JDict [(''value'', JStr ''not found'')]),
      (''f2'', JDict [(''value'', JStr ''X'')]),
      (''f3'', JStr ''X'')]"

section \<open>Pages, field specifications and prompts\<close>

type_synonym page = "int \<times> string"

type_synonym field_spec = "string \<times> string \<times> json"

definition nl :: string where
  "nl = [CHR 0x0A]"

definition page_snippet :: "page \<Rightarrow> string" where
  "page_snippet p = ''[page '' @ str_of_int (fst p) @ '']'' @ nl @ py_strip (snd p) @ nl"

fun flatten_loop :: "int \<Rightarrow> int \<Rightarrow> string list \<Rightarrow> page list \<Rightarrow> string list" where
  "flatten_loop max_chars total_len chunks [] = chunks"
| "flatten_loop max_chars total_len chunks (p # ps) =
     (let snippet = page_snippet p;
          total_len' = total_len + int (length snippet)
      in if total_len' > max_chars then chunks
         else flatten_loop max_chars total_len' (chunks @ [snippet]) ps)"

definition flatten_pages :: "page list \<Rightarrow> int \<Rightarrow> string" where
  "flatten_pages pages max_chars = py_join nl (flatten_loop max_chars 0 [] pages)"

definition default_max_chars :: int where
  "default_max_chars = 32000"

definition snippet_total :: "page list \<Rightarrow> int" where
  "snippet_total ps = sum_list (map (\<lambda>p. int (length (page_snippet p))) ps)"

definition prompt_system :: string where
  \<open>prompt_system =
     ''Tu es un assistant qui extrait des champs factuels depuis un document immobilier. R''
     @ [CHR 0xE9] @ ''ponds UNIQUEMENT avec un objet JSON, sans texte avant ou apr''
     @ [CHR 0xE8] @ ''s.''\<close>

definition prompt_rules :: "string list" where
  \<open>prompt_rules =
     [''Produit un objet JSON avec exactement les cl'' @ [CHR 0xE9] @ ''s dot-path list''
        @ [CHR 0xE9] @ ''es ci-dessous.'',
      ''Pour chaque cl'' @ [CHR 0xE9]
        @ '', renvoie {"value": <valeur ou "not found">, "page": <numero de page ou null>, "excerpt": <phrase source ou "">}.'',
      ''Si tu ne trouves pas, value = "not found", page = null, excerpt = "".'',
      ''Si c'' @ [CHR 0x27] @ ''est une liste : renvoie un tableau JSON.'',
      ''Si c'' @ [CHR 0x27] @ ''est un boolean : true/false.'',
      ''Si c'' @ [CHR 0x27] @ ''est un objet contact : {"email": "...", "telephone": "..."}.'']\<close>

definition field_line :: "(json \<Rightarrow> string) \<Rightarrow> field_spec \<Rightarrow> string" where
  "field_line repr f =
     (case f of (p, label, typ) \<Rightarrow> ''- '' @ p @ '' | '' @ label @ '' | '' @ py_str repr typ)"

definition build_prompt_content ::
  "(json \<Rightarrow> string) \<Rightarrow> string \<Rightarrow> field_spec list \<Rightarrow> string \<times> string" where
  "build_prompt_content repr doc_text field_specs =
     (let fields = py_join nl (map (field_line repr) field_specs);
          user_lines = prompt_rules @
            [''Champs '' @ [CHR 0xE0] @ '' extraire :'' @ nl @ fields @ nl @ nl
               @ ''Document pagin'' @ [CHR 0xE9] @ '' :'' @ nl @ doc_text]
      in (prompt_system, py_join nl user_lines))"

definition chunk_prompt :: "(json \<Rightarrow> string) \<Rightarrow> field_spec list \<Rightarrow> page list \<Rightarrow> string" where
  "chunk_prompt repr field_specs chunk =
     (let doc_text = flatten_pages chunk default_max_chars;
          (system, user) = build_prompt_content repr doc_text field_specs
      in system @ nl @ nl @ user)"

definition long_page :: page where
  "long_page = (2, replicate 32000 (CHR ''x''))"

definition short_page :: page where
  "short_page = (1, '' a '')"

section \<open>The relevance filter and the second pass\<close>

definition re_alnum :: "char \<Rightarrow> bool" where
  \<comment> \<open>the character class \<open>[a-zA-Z0-9]\<close>\<close>
  "re_alnum c =
     (let n = (of_char c :: nat)
      in (48 \<le> n \<and> n \<le> 57) \<or> (65 \<le> n \<and> n \<le> 90) \<or> (97 \<le> n \<and> n \<le> 122))"

fun re_split_loop :: "string \<Rightarrow> bool \<Rightarrow> string \<Rightarrow> string list" where
  \<comment> \<open>\<open>cur\<close> is the piece being read, \<open>in_sep\<close> tells that a separator run is being read\<close>
  "re_split_loop cur in_sep [] = [cur]"
| "re_split_loop cur in_sep (c # cs) =
     (if re_alnum c then re_split_loop (cur @ [c]) False cs
      else if in_sep then re_split_loop cur True cs
      else cur # re_split_loop [] True cs)"

definition re_split :: "string \<Rightarrow> string list" where
  \<comment> \<open>\<open>re.split(r"[^a-zA-Z0-9]+", s)\<close>: the pieces between maximal runs of other characters\<close>
  "re_split s = re_split_loop [] False s"

fun add_tokens :: "string list \<Rightarrow> string list \<Rightarrow> string list" where
  \<comment> \<open>the inner loop; \<open>tokens\<close> is a Python set, kept as a list without repetition\<close>
  "add_tokens tokens [] = tokens"
| "add_tokens tokens (t # ts) =
     (if length t > 3 then add_tokens (List.insert t tokens) ts else add_tokens tokens ts)"

fun collect_tokens :: "string list \<Rightarrow> field_spec list \<Rightarrow> string list" where
  "collect_tokens tokens [] = tokens"
| "collect_tokens tokens ((p, label, typ) # rest) =
     collect_tokens (add_tokens tokens (re_split (py_lower label))) rest"

fun select_pages :: "string list \<Rightarrow> page list \<Rightarrow> page list \<Rightarrow> page list" where
  "select_pages tokens selected [] = selected"
| "select_pages tokens selected ((page_no, text) # ps) =
     (let low = py_lower text
      in if list_ex (\<lambda>t. py_contains t low) tokens
         then select_pages tokens (selected @ [(page_no, text)]) ps
         else select_pages tokens selected ps)"

definition find_relevant_pages :: "page list \<Rightarrow> field_spec list \<Rightarrow> page list" where
  "find_relevant_pages pages field_specs =
     select_pages (collect_tokens [] field_specs) [] pages"

fun missing_fields :: "(json \<Rightarrow> string) \<Rightarrow> dict \<Rightarrow> field_spec list \<Rightarrow> field_spec list" where
  "missing_fields repr llm_result [] = []"
| "missing_fields repr llm_result ((path, label, typ) # rest) =
     (let val = (case map_of llm_result path of
                   Some (JDict d) \<Rightarrow> dict_get d ''value''
                 | _ \<Rightarrow> JNull)
      in if \<not> is_found repr val
         then (path, label, typ) # missing_fields repr llm_result rest
         else missing_fields repr llm_result rest)"

definition second_pass ::
  "(json \<Rightarrow> string) \<Rightarrow> (string \<Rightarrow> error + json) \<Rightarrow> bool \<Rightarrow> field_spec list \<Rightarrow> page list
     \<Rightarrow> dict \<Rightarrow> (error + dict) \<times> string list" where
  \<comment> \<open>pass 2 of \<open>main\<close>; \<open>call\<close> is \<open>call_gemini\<close>, from the prompt to the parsed answer or
      to the exception it raises. The second component lists the prompts sent to the LLM.\<close>
  "second_pass repr call enabled field_specs pages llm_result =
     (if enabled then
        (let missing = missing_fields repr llm_result field_specs
         in if missing \<noteq> [] then
              (let relevant = find_relevant_pages pages missing
               in if relevant \<noteq> [] then
                    (let doc_text = flatten_pages relevant default_max_chars;
                         (system, user) = build_prompt_content repr doc_text missing;
                         prompt = system @ nl @ nl @ user
                     in case call prompt of
                          Inl e \<Rightarrow> (Inl e, [prompt])
                        | Inr update \<Rightarrow> (Inr (merge_extractions repr llm_result update), [prompt]))
                  else (Inr llm_result, []))
            else (Inr llm_result, []))
      else (Inr llm_result, []))"





section \<open>The page loader\<close>

text \<open>
  A PDF page is modelled by what the loader asks of it: the native text
  (\<open>page.extract_text()\<close>, possibly \<open>None\<close>) and its rendered image (\<open>None\<close> when rendering
  raises). The OCR callback returns \<open>None\<close> when it raises. A document is a PDF with its
  pages, or any other file with its bytes (\<open>None\<close> when reading raises).
\<close>

record pdf_page =
  extract_text :: "string option"
  png_bytes :: "string option"

datatype document = Pdf "pdf_page list" | Other_file "string option"

definition page_text :: "(string \<Rightarrow> string option) \<Rightarrow> bool \<Rightarrow> pdf_page \<Rightarrow> string" where
  \<comment> \<open>the body of the loop: native text, completed by OCR when needed\<close>
  "page_text ocr_callback ocr_all pg =
     (let text = py_strip (case extract_text pg of Some t \<Rightarrow> t | None \<Rightarrow> []);
          needs_ocr = (ocr_all \<or> length text < 80)
      in if needs_ocr then
           (case png_bytes pg of
              None \<Rightarrow> text
            | Some png \<Rightarrow>
                (case ocr_callback png of
                   None \<Rightarrow> text
                 | Some ocr_text \<Rightarrow>
                     if ocr_text \<noteq> [] \<and> \<not> py_contains ocr_text text
                     then (if text \<noteq> [] then py_strip (text @ nl @ ocr_text) else ocr_text)
                     else text))
         else text)"

fun load_pdf_loop ::
  "int \<Rightarrow> (string \<Rightarrow> string option) \<Rightarrow> bool \<Rightarrow> int \<Rightarrow> page list \<Rightarrow> pdf_page list \<Rightarrow> page list" where
  \<comment> \<open>\<open>for idx, page in enumerate(pdf.pages, start=1)\<close>\<close>
  "load_pdf_loop max_pages ocr_callback ocr_all idx pages [] = pages"
| "load_pdf_loop max_pages ocr_callback ocr_all idx pages (pg # rest) =
     (if max_pages \<noteq> 0 \<and> idx > max_pages then pages
      else load_pdf_loop max_pages ocr_callback ocr_all (idx + 1)
             (pages @ [(idx, page_text ocr_callback ocr_all pg)]) rest)"

definition load_pages_with_ocr ::
  "document \<Rightarrow> int \<Rightarrow> (string \<Rightarrow> string option) \<Rightarrow> bool \<Rightarrow> page list" where
  "load_pages_with_ocr doc max_pages ocr_callback ocr_all =
     (case doc of
        Pdf pgs \<Rightarrow> load_pdf_loop max_pages ocr_callback ocr_all 1 [] pgs
      | Other_file None \<Rightarrow> [(1, [])]
      | Other_file (Some bytes) \<Rightarrow>
          (case ocr_callback bytes of None \<Rightarrow> [(1, [])] | Some ocr_text \<Rightarrow> [(1, ocr_text)]))"

definition failing_ocr :: "string \<Rightarrow> string option" where
  \<comment> \<open>an OCR service that raises on every call\<close>
  "failing_ocr png = None"

definition text_page :: pdf_page where
  "text_page = \<lparr>extract_text = Some ''Lot 12'', png_bytes = Some ''png''\<rparr>"

section \<open>Parsing the LLM response\<close>

fun find_from :: "nat \<Rightarrow> char \<Rightarrow> string \<Rightarrow> int" where
  "find_from i c [] = - 1"
| "find_from i c (x # xs) = (if x = c then int i else find_from (Suc i) c xs)"

definition py_find :: "string \<Rightarrow> char \<Rightarrow> int" where
  \<comment> \<open>\<open>s.find(c)\<close>: the index of the first occurrence, or -1\<close>
  "py_find s c = find_from 0 c s"

fun rfind_from :: "nat \<Rightarrow> int \<Rightarrow> char \<Rightarrow> string \<Rightarrow> int" where
  "rfind_from i seen c [] = seen"
| "rfind_from i seen c (x # xs) = rfind_from (Suc i) (if x = c then int i else seen) c xs"

definition py_rfind :: "string \<Rightarrow> char \<Rightarrow> int" where
  \<comment> \<open>\<open>s.rfind(c)\<close>: the index of the last occurrence, or -1\<close>
  "py_rfind s c = rfind_from 0 (- 1) c s"

definition py_slice :: "string \<Rightarrow> int \<Rightarrow> int \<Rightarrow> string" where
  \<comment> \<open>\<open>s[i:j]\<close> for indices that are not negative\<close>
  "py_slice s i j = take (nat j - nat i) (drop (nat i) s)"

definition parse_json_content :: "(string \<Rightarrow> error + json) \<Rightarrow> string \<Rightarrow> error + json" where
  \<comment> \<open>\<open>loads\<close> is \<open>json.loads\<close>. Only \<open>JSONDecodeError\<close> is caught; any other exception of
      \<open>json.loads\<close> leaves the function.\<close>
  "parse_json_content loads content =
     (case loads content of
        Inr v \<Rightarrow> Inr v
      | Inl e \<Rightarrow>
          if e \<noteq> Json_decode_error then Inl e
          else
            (let start = py_find content (CHR ''{'');
                 end = py_rfind content (CHR ''}'')
             in if start \<noteq> - 1 \<and> end \<noteq> - 1 \<and> end > start then
                  (let snippet = py_slice content start (end + 1)
                   in case loads snippet of
                        Inr v \<Rightarrow> Inr v
                      | Inl e' \<Rightarrow> if e' \<noteq> Json_decode_error then Inl e' else Inr (JDict []))
                else Inr (JDict [])))"

definition braces_only_loads :: "string \<Rightarrow> error + json" where
  \<comment> \<open>a decoder that accepts the text \<open>{}\<close> and no other\<close>
  "braces_only_loads s = (if s = ''{}'' then Inr (JDict []) else Inl Json_decode_error)"

definition is_dict :: "json \<Rightarrow> bool" where
  \<comment> \<open>\<open>isinstance(v, dict)\<close>\<close>
  "is_dict v = (case v of JDict d \<Rightarrow> True | _ \<Rightarrow> False)"

subsection \<open>A decoder for JSON texts\<close>

text \<open>
  \<open>json_loads\<close> stands for the library function \<open>json.loads\<close> on texts in the Latin-1
  range: whitespace, the literals, numbers, strings with their escapes (a \<open>\u\<close> escape
  only below 256), arrays and objects, where a repeated key keeps its last value. An
  integer literal of more than \<open>int_max_str_digits\<close> digits raises \<open>ValueError\<close>, and an
  array or object opened at a depth of nesting that the interpreter does not allow raises
  \<open>RecursionError\<close>; that depth is the first argument of \<open>json_loads\<close>. The decoder runs
  on fuel: each nested call for a value, an element or a member takes one unit, and a
  text is given twice its length and two.
\<close>

definition json_ws :: "char \<Rightarrow> bool" where
  "json_ws c = (c = CHR '' '' \<or> c = CHR 0x09 \<or> c = CHR 0x0A \<or> c = CHR 0x0D)"

definition skip_ws :: "string \<Rightarrow> string" where
  "skip_ws s = dropWhile json_ws s"

definition is_digit :: "char \<Rightarrow> bool" where
  "is_digit c = (let n = (of_char c :: nat) in 48 \<le> n \<and> n \<le> 57)"

definition digit_val :: "char \<Rightarrow> nat" where
  "digit_val c = of_char c - 48"

definition nat_of_digits :: "string \<Rightarrow> nat" where
  "nat_of_digits ds = foldl (\<lambda>acc d. 10 * acc + digit_val d) 0 ds"

definition hex_val :: "char \<Rightarrow> nat option" where
  "hex_val c =
     (let n = (of_char c :: nat)
      in if 48 \<le> n \<and> n \<le> 57 then Some (n - 48)
         else if 65 \<le> n \<and> n \<le> 70 then Some (n - 55)
         else if 97 \<le> n \<and> n \<le> 102 then Some (n - 87)
         else None)"

definition hex4 :: "string \<Rightarrow> nat option" where
  \<comment> \<open>the four hexadecimal digits of a \<open>\u\<close> escape\<close>
  "hex4 s =
     (case s of
        a # b # c # d # rest \<Rightarrow>
          (case (hex_val a, hex_val b, hex_val c, hex_val d) of
             (Some w, Some x, Some y, Some z) \<Rightarrow> Some (((w * 16 + x) * 16 + y) * 16 + z)
           | _ \<Rightarrow> None)
      | _ \<Rightarrow> None)"

definition unescape :: "char \<Rightarrow> char option" where
  "unescape e =
     (if e = CHR 0x22 then Some (CHR 0x22)
      else if e = CHR 0x5C then Some (CHR 0x5C)
      else if e = CHR ''/'' then Some (CHR ''/'')
      else if e = CHR ''b'' then Some (CHR 0x08)
      else if e = CHR ''f'' then Some (CHR 0x0C)
      else if e = CHR ''n'' then Some (CHR 0x0A)
      else if e = CHR ''r'' then Some (CHR 0x0D)
      else if e = CHR ''t'' then Some (CHR 0x09)
      else None)"

fun scan_string :: "string \<Rightarrow> string \<Rightarrow> (string \<times> string) option" where
  \<comment> \<open>after the opening quote: the decoded string and the text after the closing quote\<close>
  "scan_string acc [] = None"
| "scan_string acc (c # cs) =
     (if c = CHR 0x22 then Some (acc, cs)
      else if c = CHR 0x5C then
        (case cs of
           [] \<Rightarrow> None
         | e # cs' \<Rightarrow>
             if e = CHR ''u'' then
               (case hex4 cs' of
                  Some n \<Rightarrow> if n < 256 then scan_string (acc @ [char_of n]) (drop 4 cs') else None
                | None \<Rightarrow> None)
             else
               (case unescape e of
                  Some ch \<Rightarrow> scan_string (acc @ [ch]) cs'
                | None \<Rightarrow> None))
      else if (of_char c :: nat) < 32 then None
      else scan_string (acc @ [c]) cs)"

definition scan_int_part :: "string \<Rightarrow> (string \<times> string) option" where
  \<comment> \<open>\<open>-?(0|[1-9][0-9]*)\<close>\<close>
  "scan_int_part s =
     (let (sign, s1) = (case s of c # cs \<Rightarrow> if c = CHR ''-'' then (''-'', cs) else ([], s) | [] \<Rightarrow> ([], s))
      in case s1 of
           [] \<Rightarrow> None
         | d # ds \<Rightarrow>
             if d = CHR ''0'' then Some (sign @ ''0'', ds)
             else if is_digit d then Some (sign @ takeWhile is_digit s1, dropWhile is_digit s1)
             else None)"

definition scan_frac :: "string \<Rightarrow> string \<times> string" where
  \<comment> \<open>\<open>(\.[0-9]+)?\<close>\<close>
  "scan_frac s =
     (case s of
        c # cs \<Rightarrow>
          if c = CHR ''.'' \<and> takeWhile is_digit cs \<noteq> []
          then (c # takeWhile is_digit cs, dropWhile is_digit cs) else ([], s)
      | [] \<Rightarrow> ([], s))"

definition scan_exp :: "string \<Rightarrow> string \<times> string" where
  \<comment> \<open>\<open>([eE][-+]?[0-9]+)?\<close>\<close>
  "scan_exp s =
     (case s of
        c # cs \<Rightarrow>
          if c = CHR ''e'' \<or> c = CHR ''E'' then
            (let (sg, cs') = (case cs of x # xs \<Rightarrow> if x = CHR ''-'' \<or> x = CHR ''+'' then ([x], xs) else ([], cs)
                              | [] \<Rightarrow> ([], cs))
             in if takeWhile is_digit cs' \<noteq> []
                then (c # sg @ takeWhile is_digit cs', dropWhile is_digit cs') else ([], s))
          else ([], s)
      | [] \<Rightarrow> ([], s))"

definition int_max_str_digits :: nat where
  \<comment> \<open>the default of \<open>sys.int_max_str_digits\<close> in CPython\<close>
  "int_max_str_digits = 4300"

definition nesting_limit :: nat where
  \<comment> \<open>the depth of nesting taken in the examples: CPython's default recursion limit\<close>
  "nesting_limit = 1000"

definition scan_number :: "string \<Rightarrow> error + json \<times> string" where
  "scan_number s =
     (case scan_int_part s of
        None \<Rightarrow> Inl Json_decode_error
      | Some (integer, r1) \<Rightarrow>
          (let (frac, r2) = scan_frac r1;
               (exp, r3) = scan_exp r2
           in if frac = [] \<and> exp = [] then
                (let (negative, digits) =
                       (case integer of
                          c # ds \<Rightarrow> if c = CHR ''-'' then (True, ds) else (False, integer)
                        | [] \<Rightarrow> (False, []))
                 in if length digits > int_max_str_digits then Inl Value_error
                    else Inr (JInt (if negative then - int (nat_of_digits digits)
                                    else int (nat_of_digits digits)), r3))
              else Inr (JFloat (integer @ frac @ exp), r3)))"

definition scan_literal :: "string \<Rightarrow> error + json \<times> string" where
  "scan_literal s =
     (if prefix ''null'' s then Inr (JNull, drop 4 s)
      else if prefix ''true'' s then Inr (JBool True, drop 4 s)
      else if prefix ''false'' s then Inr (JBool False, drop 5 s)
      else (case scan_number s of
              Inr r \<Rightarrow> Inr r
            | Inl e \<Rightarrow>
                if e \<noteq> Json_decode_error then Inl e
                else if prefix ''NaN'' s then Inr (JFloat ''NaN'', drop 3 s)
                else if prefix ''Infinity'' s then Inr (JFloat ''Infinity'', drop 8 s)
                else if prefix ''-Infinity'' s then Inr (JFloat ''-Infinity'', drop 9 s)
                else Inl Json_decode_error))"

fun parse_value :: "nat \<Rightarrow> nat \<Rightarrow> nat \<Rightarrow> string \<Rightarrow> error + json \<times> string"
  and parse_elements :: "nat \<Rightarrow> nat \<Rightarrow> nat \<Rightarrow> json list \<Rightarrow> string \<Rightarrow> error + json \<times> string"
  and parse_members :: "nat \<Rightarrow> nat \<Rightarrow> nat \<Rightarrow> dict \<Rightarrow> string \<Rightarrow> error + json \<times> string" where
  \<comment> \<open>\<open>lim\<close> is the depth of nesting allowed, \<open>depth\<close> the number of arrays and objects
      open around the value\<close>
  "parse_value lim 0 depth s = Inl Json_decode_error"
| "parse_value lim (Suc n) depth [] = Inl Json_decode_error"
| "parse_value lim (Suc n) depth (c # cs) =
     (if c = CHR 0x22 then
        (case scan_string [] cs of
           Some (str, rest) \<Rightarrow> Inr (JStr str, rest)
         | None \<Rightarrow> Inl Json_decode_error)
      else if c = CHR ''{'' then
        (if lim \<le> depth then Inl Recursion_error
         else case skip_ws cs of
                [] \<Rightarrow> Inl Json_decode_error
              | x # rest \<Rightarrow>
                  if x = CHR ''}'' then Inr (JDict [], rest)
                  else parse_members lim n (Suc depth) [] (x # rest))
      else if c = CHR ''['' then
        (if lim \<le> depth then Inl Recursion_error
         else case skip_ws cs of
                [] \<Rightarrow> Inl Json_decode_error
              | x # rest \<Rightarrow>
                  if x = CHR '']'' then Inr (JList [], rest)
                  else parse_elements lim n (Suc depth) [] (x # rest))
      else scan_literal (c # cs))"
| "parse_elements lim 0 depth acc s = Inl Json_decode_error"
| "parse_elements lim (Suc n) depth acc s =
     (case parse_value lim n depth s of
        Inl e \<Rightarrow> Inl e
      | Inr (v, rest) \<Rightarrow>
          (case skip_ws rest of
             [] \<Rightarrow> Inl Json_decode_error
           | x # rest' \<Rightarrow>
               if x = CHR '']'' then Inr (JList (acc @ [v]), rest')
               else if x = CHR '','' then parse_elements lim n depth (acc @ [v]) (skip_ws rest')
               else Inl Json_decode_error))"
| "parse_members lim 0 depth acc s = Inl Json_decode_error"
| "parse_members lim (Suc n) depth acc [] = Inl Json_decode_error"
| "parse_members lim (Suc n) depth acc (q # cs) =
     (if q = CHR 0x22 then
        (case scan_string [] cs of
           None \<Rightarrow> Inl Json_decode_error
         | Some (key, rest) \<Rightarrow>
             (case skip_ws rest of
                [] \<Rightarrow> Inl Json_decode_error
              | x # rest1 \<Rightarrow>
                  if x = CHR '':'' then
                    (case parse_value lim n depth (skip_ws rest1) of
                       Inl e \<Rightarrow> Inl e
                     | Inr (v, rest2) \<Rightarrow>
                         (case skip_ws rest2 of
                            [] \<Rightarrow> Inl Json_decode_error
                          | y # rest3 \<Rightarrow>
                              if y = CHR ''}'' then Inr (JDict (dict_set acc key v), rest3)
                              else if y = CHR '','' then
                                parse_members lim n depth (dict_set acc key v) (skip_ws rest3)
                              else Inl Json_decode_error))
                  else Inl Json_decode_error))
      else Inl Json_decode_error)"

definition json_loads :: "nat \<Rightarrow> string \<Rightarrow> error + json" where
  "json_loads lim s =
     (case parse_value lim (2 * length s + 2) 0 (skip_ws s) of
        Inl e \<Rightarrow> Inl e
      | Inr (v, rest) \<Rightarrow> if skip_ws rest = [] then Inr v else Inl Json_decode_error)"

definition long_number :: string where
  \<comment> \<open>an integer literal of 5000 digits\<close>
  "long_number = replicate 5000 (CHR ''1'')"

definition wrapped_response :: string where
  \<open>wrapped_response = ''Sure! {"a":{"value":1}} thanks''\<close>

definition wrapped_inner :: string where
  \<open>wrapped_inner = ''"a":{"value":1}''\<close>

definition array_response :: string where
  \<open>array_response = ''[1]''\<close>

section \<open>Templates: collecting fields and filling\<close>

fun split_loop :: "char \<Rightarrow> string \<Rightarrow> string \<Rightarrow> string list" where
  "split_loop sep cur [] = [cur]"
| "split_loop sep cur (c # cs) =
     (if c = sep then cur # split_loop sep [] cs else split_loop sep (cur @ [c]) cs)"

definition py_split :: "string \<Rightarrow> char \<Rightarrow> string list" where
  \<comment> \<open>\<open>s.split(sep)\<close> for a separator of one character\<close>
  "py_split s sep = split_loop sep [] s"

definition has_key :: "dict \<Rightarrow> string \<Rightarrow> bool" where
  \<comment> \<open>\<open>k in d\<close>\<close>
  "has_key d k = (map_of d k \<noteq> None)"

fun collect_fields :: "dict \<Rightarrow> string \<Rightarrow> field_spec list" where
  "collect_fields [] pfx = []"
| "collect_fields ((k, v) # rest) pfx =
     (let path = (if pfx \<noteq> [] then pfx @ ''.'' @ k else k)
      in (if prefix ''meta.'' path then []
          else (case v of
                  JDict d \<Rightarrow>
                    if has_key d ''expected_type''
                    then [(path, path, dict_get_default d ''expected_type'' (JStr []))]
                    else collect_fields d path
                | _ \<Rightarrow> []))
         @ collect_fields rest pfx)"

definition new_record :: "json \<Rightarrow> json \<Rightarrow> json \<Rightarrow> json" where
  \<comment> \<open>\<open>{"value": value, "source": {"page": page, "excerpt": excerpt}}\<close>\<close>
  "new_record val page excerpt =
     JDict [(''value'', val), (''source'', JDict [(''page'', page), (''excerpt'', excerpt)])]"

definition set_leaf :: "dict \<Rightarrow> json \<Rightarrow> json \<Rightarrow> json \<Rightarrow> dict" where
  \<comment> \<open>the branch of \<open>set_path\<close> for a leaf that is a dict already\<close>
  "set_leaf leaf val page excerpt =
     (let leaf1 = dict_set leaf ''value'' val
      in case map_of leaf1 ''source'' of
           Some (JDict src) \<Rightarrow>
             dict_set leaf1 ''source'' (JDict (dict_set (dict_set src ''page'' page) ''excerpt'' excerpt))
         | _ \<Rightarrow> dict_set leaf1 ''source'' (JDict [(''page'', page), (''excerpt'', excerpt)]))"

fun set_parts :: "json \<Rightarrow> string list \<Rightarrow> json \<Rightarrow> json \<Rightarrow> json \<Rightarrow> json option" where
  \<comment> \<open>\<open>set_path\<close> from \<open>cursor\<close> along the parts of the path; \<open>None\<close> when a node on the way
      is not a dict and the method call on it raises\<close>
  "set_parts cursor [] val page excerpt = None"
| "set_parts cursor [part] val page excerpt =
     (case cursor of
        JDict d \<Rightarrow>
          (case map_of d part of
             Some (JDict leaf) \<Rightarrow> Some (JDict (dict_set d part (JDict (set_leaf leaf val page excerpt))))
           | _ \<Rightarrow> Some (JDict (dict_set d part (new_record val page excerpt))))
      | _ \<Rightarrow> None)"
| "set_parts cursor (part # rest) val page excerpt =
     (case cursor of
        JDict d \<Rightarrow>
          (case set_parts (case map_of d part of Some child \<Rightarrow> child | None \<Rightarrow> JDict [])
                  rest val page excerpt of
             Some child' \<Rightarrow> Some (JDict (dict_set d part child'))
           | None \<Rightarrow> None)
      | _ \<Rightarrow> None)"

definition set_path :: "json \<Rightarrow> string \<Rightarrow> json \<Rightarrow> json \<Rightarrow> json \<Rightarrow> json option" where
  "set_path root path val page excerpt = set_parts root (py_split path (CHR ''.'')) val page excerpt"

definition payload_value :: "dict \<Rightarrow> string \<Rightarrow> json" where
  "payload_value llm_result path =
     (case dict_get_default llm_result path (JDict []) of
        JDict payload \<Rightarrow> dict_get_default payload ''value'' (JStr ''not found'')
      | _ \<Rightarrow> JStr ''not found'')"

definition payload_page :: "dict \<Rightarrow> string \<Rightarrow> json" where
  "payload_page llm_result path =
     (case dict_get_default llm_result path (JDict []) of
        JDict payload \<Rightarrow> dict_get payload ''page''
      | _ \<Rightarrow> JNull)"

definition payload_excerpt :: "dict \<Rightarrow> string \<Rightarrow> json" where
  "payload_excerpt llm_result path =
     (case dict_get_default llm_result path (JDict []) of
        JDict payload \<Rightarrow> dict_get payload ''excerpt''
      | _ \<Rightarrow> JStr [])"

fun fill_fields :: "json \<Rightarrow> json \<Rightarrow> field_spec list \<Rightarrow> json option" where
  \<comment> \<open>the loop \<open>for path, _, _ in field_specs\<close>; \<open>llm_result.get\<close> raises when the result
      is not a dict\<close>
  "fill_fields llm_result template_obj [] = Some template_obj"
| "fill_fields llm_result template_obj ((path, label, typ) # rest) =
     (case llm_result of
        JDict res \<Rightarrow>
          (case set_path template_obj path (payload_value res path)
                  (payload_page res path) (payload_excerpt res path) of
             None \<Rightarrow> None
           | Some t \<Rightarrow> fill_fields llm_result t rest)
      | _ \<Rightarrow> None)"

definition fill_template :: "json \<Rightarrow> json \<Rightarrow> string \<Rightarrow> string \<Rightarrow> json option" where
  \<comment> \<open>the end of \<open>main\<close>: the fields are collected from the template as loaded, the two
      \<open>meta\<close> entries are set, then every field is written. \<open>None\<close> when a call raises.\<close>
  "fill_template template_obj llm_result file_type file_name =
     (case template_obj of
        JDict t \<Rightarrow>
          (let field_specs = collect_fields t []
           in case set_path template_obj ''meta.file_type'' (JStr file_type) JNull (JStr []) of
                None \<Rightarrow> None
              | Some t1 \<Rightarrow>
                  (case set_path t1 ''meta.file_name'' (JStr file_name) JNull (JStr []) of
                     None \<Rightarrow> None
                   | Some t2 \<Rightarrow> fill_fields llm_result t2 field_specs))
      | _ \<Rightarrow> None)"

fun get_parts :: "json \<Rightarrow> string list \<Rightarrow> json option" where
  \<comment> \<open>reading a template back along the parts of a path\<close>
  "get_parts node [] = Some node"
| "get_parts node (part # rest) =
     (case node of
        JDict d \<Rightarrow> (case map_of d part of Some child \<Rightarrow> get_parts child rest | None \<Rightarrow> None)
      | _ \<Rightarrow> None)"

definition get_path :: "json \<Rightarrow> string \<Rightarrow> json option" where
  "get_path root path = get_parts root (py_split path (CHR ''.''))"

definition small_fields :: dict where
  "small_fields =
     [(''meta'', JDict [(''file_type'', JStr []), (''x'', JDict [(''expected_type'', JStr ''string'')])]),
      (''a'', JDict [(''b'', JDict [(''expected_type'', JStr ''string'')]),
                     (''c'', JDict [(''expected_type'', JStr ''list''),
                                    (''source'', JDict [(''page'', JInt 1), (''note'', JStr ''n'')])])]),
      (''d'', JDict [(''expected_type'', JStr ''bool'')])]"

definition null_result :: dict where
  \<comment> \<open>an answer that reports the field \<open>d\<close> with the value \<open>null\<close>\<close>
  "null_result = [(''d'', JDict [(''value'', JNull), (''page'', JNull), (''excerpt'', JStr [])])]"

definition small_result :: dict where
  "small_result =
     [(''a.b'', JDict [(''value'', JStr ''Paris''), (''page'', JInt 3), (''excerpt'', JStr ''situ'')]),
      (''d'', JStr ''oops'')]"

subsection \<open>Notions used to state the properties of the fill step\<close>

fun wf_fields :: "dict \<Rightarrow> bool" where
  \<comment> \<open>at every level that \<open>collect_fields\<close> visits, the keys are distinct, not empty and
      without a dot\<close>
  "wf_fields [] = True"
| "wf_fields ((k, v) # rest) =
     (k \<noteq> [] \<and> CHR ''.'' \<notin> set k \<and> k \<notin> fst ` set rest
      \<and> (case v of JDict d \<Rightarrow> has_key d ''expected_type'' \<or> wf_fields d | _ \<Rightarrow> True)
      \<and> wf_fields rest)"

definition wf_template :: "json \<Rightarrow> bool" where
  \<comment> \<open>a template is a dict with well-formed keys whose \<open>meta\<close> entry, if any, is a dict\<close>
  "wf_template t =
     (case t of
        JDict d \<Rightarrow> wf_fields d \<and> (case map_of d ''meta'' of Some m \<Rightarrow> is_dict m | None \<Rightarrow> True)
      | _ \<Rightarrow> False)"

definition leaf_ok :: "dict \<Rightarrow> json \<Rightarrow> json \<Rightarrow> json \<Rightarrow> bool" where
  \<comment> \<open>the leaf holds \<open>value\<close> and, under \<open>source\<close>, \<open>page\<close> and \<open>excerpt\<close>\<close>
  "leaf_ok leaf val page excerpt =
     (map_of leaf ''value'' = Some val
      \<and> (case map_of leaf ''source'' of
            Some (JDict src) \<Rightarrow> map_of src ''page'' = Some page \<and> map_of src ''excerpt'' = Some excerpt
          | _ \<Rightarrow> False))"

definition entry_at :: "json \<Rightarrow> string \<Rightarrow> json \<Rightarrow> json \<Rightarrow> json \<Rightarrow> bool" where
  \<comment> \<open>reading the path back gives a record with this value, page and excerpt\<close>
  "entry_at root path val page excerpt =
     (case get_path root path of
        Some (JDict leaf) \<Rightarrow> leaf_ok leaf val page excerpt
      | _ \<Rightarrow> False)"

fun is_field :: "dict \<Rightarrow> string list \<Rightarrow> bool" where
  \<comment> \<open>the parts lead, through dicts without \<open>expected_type\<close>, to a dict that has it\<close>
  "is_field d [] = False"
| "is_field d [k] =
     (case map_of d k of Some (JDict leaf) \<Rightarrow> has_key leaf ''expected_type'' | _ \<Rightarrow> False)"
| "is_field d (k # ks) =
     (case map_of d k of
        Some (JDict sub) \<Rightarrow> \<not> has_key sub ''expected_type'' \<and> is_field sub ks
      | _ \<Rightarrow> False)"

definition dict_at :: "json \<Rightarrow> string list \<Rightarrow> bool" where
  \<comment> \<open>the parts lead to a dict\<close>
  "dict_at t ks = (case get_parts t ks of Some v \<Rightarrow> is_dict v | None \<Rightarrow> False)"

definition good_parts :: "string list \<Rightarrow> bool" where
  \<comment> \<open>no part is empty or holds a dot\<close>
  "good_parts ks = (\<forall>k \<in> set ks. k \<noteq> [] \<and> CHR ''.'' \<notin> set k)"

section \<open>The two pipelines\<close>

text \<open>
  A run is modelled by what it does to the outside, in order, and by how it ends. The
  LLM, the OCR service and \<open>json.loads\<close> are parameters; an API key is \<open>None\<close> when the
  variable is not set, and an empty key counts as absent (\<open>if not api_key\<close>).
\<close>

datatype event =
    Pages_loaded "page list"
  | Llm_called string
  | Output_written json

datatype outcome = Completed | Exited nat | Raised error

record cli_args =
  template_json :: "json option"
  document :: document
  max_pages :: int
  ocr_all :: bool
  chunk_pages :: int
  second_pass_flag :: bool
  file_type :: string
  file_name :: string

definition key_absent :: "string option \<Rightarrow> bool" where
  \<comment> \<open>\<open>not api_key\<close>\<close>
  "key_absent api_key = (case api_key of None \<Rightarrow> True | Some k \<Rightarrow> k = [])"

definition mistral_ocr_image ::
  "string option \<Rightarrow> (string \<Rightarrow> string option) \<Rightarrow> string \<Rightarrow> string option" where
  \<comment> \<open>\<open>None\<close> when the call raises: at once without a key, else when the service fails\<close>
  "mistral_ocr_image api_key ocr_service png =
     (if key_absent api_key then None else ocr_service png)"

definition call_mistral ::
  "string option \<Rightarrow> (string \<Rightarrow> error + json) \<Rightarrow> (string \<times> string \<Rightarrow> string) \<Rightarrow> string \<times> string
     \<Rightarrow> error + json" where
  "call_mistral api_key loads llm messages =
     (if key_absent api_key then Inl Environment_error
      else parse_json_content loads (llm messages))"

definition mistral_main ::
  "(json \<Rightarrow> string) \<Rightarrow> string option \<Rightarrow> (string \<Rightarrow> error + json) \<Rightarrow> (string \<times> string \<Rightarrow> string)
     \<Rightarrow> (string \<Rightarrow> string option) \<Rightarrow> cli_args \<Rightarrow> event list \<times> outcome" where
  "mistral_main repr api_key loads llm ocr_service args =
     (case template_json args of
        None \<Rightarrow> ([], Raised File_not_found)
      | Some (JDict t) \<Rightarrow>
          (let field_specs = collect_fields t [];
               pages = load_pages_with_ocr (document args) (max_pages args)
                         (mistral_ocr_image api_key ocr_service) (ocr_all args);
               doc_text = flatten_pages pages default_max_chars;
               messages = build_prompt_content repr doc_text field_specs;
               calls = (if key_absent api_key then [] else [Llm_called (snd messages)])
           in case call_mistral api_key loads llm messages of
                Inl e \<Rightarrow> (Pages_loaded pages # calls, Raised e)
              | Inr llm_result \<Rightarrow>
                  (case fill_template (JDict t) llm_result (file_type args) (file_name args) of
                     None \<Rightarrow> (Pages_loaded pages # calls, Raised Attribute_error)
                   | Some out \<Rightarrow> (Pages_loaded pages # calls @ [Output_written out], Completed)))
      | Some _ \<Rightarrow> ([], Raised Attribute_error))"

definition list_reply :: "string \<times> string \<Rightarrow> string" where
  \<comment> \<open>an LLM that answers every request with the text \<open>[1]\<close>\<close>
  "list_reply messages = ''[1]''"

function chunks_of :: "nat \<Rightarrow> 'a list \<Rightarrow> 'a list list" where
  \<comment> \<open>\<open>[pages[i:i + n] for i in range(0, len(pages), n)]\<close>\<close>
  "chunks_of n xs = (if n = 0 \<or> xs = [] then [] else take n xs # chunks_of n (drop n xs))"
  by pat_completeness auto

termination
  by (relation "measure (\<lambda>(n, xs). length xs)") auto

definition call_gemini ::
  "(string \<Rightarrow> error + json) \<Rightarrow> (string \<Rightarrow> string) \<Rightarrow> string \<Rightarrow> error + json" where
  "call_gemini loads llm prompt = parse_json_content loads (llm prompt)"

fun run_chunks ::
  "(string \<Rightarrow> error + json) \<Rightarrow> string list \<Rightarrow> (error + json list) \<times> string list" where
  \<comment> \<open>the calls of pass 1, one prompt after the other, up to the first that raises: the
      answers, or the exception, and the prompts sent\<close>
  "run_chunks call [] = (Inr [], [])"
| "run_chunks call (prompt # rest) =
     (case call prompt of
        Inl e \<Rightarrow> (Inl e, [prompt])
      | Inr answer \<Rightarrow>
          (case run_chunks call rest of
             (Inl e, sent) \<Rightarrow> (Inl e, prompt # sent)
           | (Inr answers, sent) \<Rightarrow> (Inr (answer # answers), prompt # sent)))"

definition gemini_main ::
  "(json \<Rightarrow> string) \<Rightarrow> string option \<Rightarrow> string \<Rightarrow> (string \<Rightarrow> error + json) \<Rightarrow> (string \<Rightarrow> string)
     \<Rightarrow> (string \<Rightarrow> string option) \<Rightarrow> cli_args \<Rightarrow> event list \<times> outcome" where
  \<comment> \<open>the chunk results are merged in the order of the chunks\<close>
  "gemini_main repr api_key text_model loads llm ocr_service args =
     (if key_absent api_key then ([], Exited 1)
      else if text_model = [] then ([], Exited 1)
      else
        (case template_json args of
           None \<Rightarrow> ([], Raised File_not_found)
         | Some (JDict t) \<Rightarrow>
             (let field_specs = collect_fields t [];
                  pages = load_pages_with_ocr (document args) (max_pages args) ocr_service
                            (ocr_all args);
                  chunks = chunks_of (nat (max 1 (chunk_pages args))) pages;
                  prompts = map (chunk_prompt repr field_specs) chunks
              in case run_chunks (call_gemini loads llm) prompts of
                   (Inl e, sent) \<Rightarrow> (Pages_loaded pages # map Llm_called sent, Raised e)
                 | (Inr answers, sent) \<Rightarrow>
                     (let llm_result = merge_chunks repr [] answers
                      in case second_pass repr (call_gemini loads llm) (second_pass_flag args)
                                field_specs pages llm_result of
                           (Inl e, sent2) \<Rightarrow>
                             (Pages_loaded pages # map Llm_called (sent @ sent2), Raised e)
                         | (Inr llm_result2, sent2) \<Rightarrow>
                             (let calls = map Llm_called (sent @ sent2)
                              in case fill_template (JDict t) (JDict llm_result2) (file_type args)
                                        (file_name args) of
                                   None \<Rightarrow> (Pages_loaded pages # calls, Raised Attribute_error)
                                 | Some out \<Rightarrow>
                                     (Pages_loaded pages # calls @ [Output_written out],
                                      Completed))))
         | Some _ \<Rightarrow> ([], Raised Attribute_error)))"

fun wrote_output :: "event list \<Rightarrow> bool" where
  "wrote_output [] = False"
| "wrote_output (Output_written out # es) = True"
| "wrote_output (e # es) = wrote_output es"

definition carnet_args :: cli_args where
  "carnet_args =
     \<lparr>template_json = Some (JDict small_fields), document = Pdf [text_page], max_pages = 12,
      ocr_all = False, chunk_pages = 8, second_pass_flag = False,
      file_type = ''pdf'', file_name = ''doc.pdf''\<rparr>"

section \<open>Lemmas on dicts and the merger\<close>

lemma map_of_dict_set: "map_of (dict_set d k v) = (map_of d)(k \<mapsto> v)"
  by (induction d) (auto simp: fun_eq_iff)

lemma merge_items_lookup:
  "map_of (merge_items repr base u) k =
     (let hs = map snd (filter (\<lambda>(k', v). k' = k) (filter (\<lambda>(k, v). copied repr v) u))
      in if hs = [] then map_of base k else Some (last hs))"
proof (induction u arbitrary: base)
  case Nil
  show ?case by simp
next
  case (Cons p u)
  obtain key val where p: "p = (key, val)" by (cases p)
  show ?case
  proof (cases "copied repr val")
    case True
    then obtain d where d: "val = JDict d" "is_found repr (dict_get d ''value'')"
      by (auto simp: copied_def split: json.splits)
    have "merge_items repr base (p # u) = merge_items repr (dict_set base key val) u"
      using p d by simp
    then show ?thesis
      using Cons.IH [of "dict_set base key val"] True p
      by (simp add: map_of_dict_set Let_def)
  next
    case False
    then have "merge_items repr base (p # u) = merge_items repr base u"
      using p by (auto simp: copied_def split: json.splits)
    then show ?thesis
      using Cons.IH [of base] False p by (simp add: Let_def)
  qed
qed

lemma merge_extractions_lookup:
  "map_of (merge_extractions repr base update) k =
     (if hits repr k update = [] then map_of base k else Some (last (hits repr k update)))"
  by (cases update)
     (simp_all add: merge_extractions_def hits_def found_entries_def merge_items_lookup Let_def)

lemma merge_chunks_lookup:
  "map_of (merge_chunks repr base us) k =
     (let hs = concat (map (hits repr k) us)
      in if hs = [] then map_of base k else Some (last hs))"
proof (induction us arbitrary: base)
  case Nil
  show ?case by simp
next
  case (Cons u us)
  show ?case
    using Cons.IH [of "merge_extractions repr base u"]
    by (auto simp: merge_extractions_lookup Let_def)
qed

lemma filter_key_distinct:
  "distinct (map fst u) \<Longrightarrow>
   filter (\<lambda>(k', v). k' = k) u = (case map_of u k of Some v \<Rightarrow> [(k, v)] | None \<Rightarrow> [])"
proof (induction u)
  case Nil
  show ?case by simp
next
  case (Cons p u)
  obtain a b where p: "p = (a, b)" by (cases p)
  show ?case
  proof (cases "a = k")
    case True
    with Cons.prems p have "k \<notin> fst ` set u" by simp
    then have "filter (\<lambda>(k', v). k' = k) u = []"
      by (force simp: filter_empty_conv)
    with True p show ?thesis by simp
  next
    case False
    with Cons p show ?thesis by simp
  qed
qed

lemma nb_X: "not_blank ''X''" by code_simp
lemma nb_Y: "not_blank ''Y''" by code_simp
lemma nb_nf: "\<not> not_blank ''not found''" by code_simp

lemma hits_chunk_a: "hits repr k chunk_a = (if k = ''f1'' then [JDict [(''value'', JStr ''X'')]] else [])"
  using nb_X by (simp add: hits_def found_entries_def chunk_a_def copied_def dict_get_def)
lemma hits_chunk_b: "hits repr k chunk_b = []"
  using nb_nf by (simp add: hits_def found_entries_def chunk_b_def copied_def dict_get_def)
lemma hits_chunk_c: "hits repr k chunk_c = (if k = ''f1'' then [JDict [(''value'', JStr ''Y'')]] else [])"
  using nb_Y by (simp add: hits_def found_entries_def chunk_c_def copied_def dict_get_def)

lemma found_chunk_a: "found_entries repr chunk_a = [(''f1'', JDict [(''value'', JStr ''X'')])]"
  using nb_X by (simp add: found_entries_def chunk_a_def copied_def dict_get_def)
lemma found_chunk_b: "found_entries repr chunk_b = []"
  using nb_nf by (simp add: found_entries_def chunk_b_def copied_def dict_get_def)
lemma found_chunk_d: "found_entries repr chunk_d = [(''f2'', JDict [(''value'', JStr ''Y'')])]"
  using nb_Y by (simp add: found_entries_def chunk_d_def copied_def dict_get_def)

section \<open>The found / not-found predicate\<close>

text \<open>
  C4. \<open>is_found\<close> follows this case analysis: \<open>None\<close> is not found; a string is not
  found exactly when, trimmed and lowercased, it is empty or \<open>not found\<close>; a list is not
  found exactly when it is empty; a dict is found exactly when one of its values,
  stringified, trimmed and lowercased, is neither empty nor \<open>not found\<close>; every other
  value is found. The three examples of the specification hold.
\<close>

theorem is_found_cases:
  "is_found repr JNull = False
   \<and> is_found repr (JStr s) = (py_lower (py_strip s) \<notin> {'''', ''not found''})
   \<and> is_found repr (JList xs) = (xs \<noteq> [])
   \<and> is_found repr (JDict d)
       = (\<exists>v \<in> snd ` set d. py_lower (py_strip (py_str repr v)) \<notin> {'''', ''not found''})
   \<and> is_found repr (JBool b) \<and> is_found repr (JInt i) \<and> is_found repr (JFloat f)
   \<and> is_found repr (JStr ''  '') = False
   \<and> is_found repr (JList [JStr ''x''])
   \<and> is_found repr
        (JDict [(''email'', JStr ''not found''), (''telephone'', JStr ''555'')])"
proof -
  have blank: "\<not> not_blank ''  ''" by code_simp
  have nf: "\<not> not_blank ''not found''" by code_simp
  have tel: "not_blank ''555''" by code_simp
  have d: "is_found repr (JDict d)
       = (\<exists>v \<in> snd ` set d. py_lower (py_strip (py_str repr v)) \<notin> {'''', ''not found''})"
    by (simp add: list_ex_iff not_blank_def)
  show ?thesis
    using blank nf tel d by (simp add: py_str_def) (simp add: not_blank_def)
qed

theorem is_found_cases_witness:
  "is_found py_repr (JStr ''Not Found '') = False
   \<and> is_found py_repr (JDict [(''a'', JNull)])
   \<and> is_found py_repr (JDict [(''a'', JStr '' '')]) = False"
proof -
  have a: "py_lower (py_strip ''Not Found '') = ''not found''" by code_simp
  have b: "py_lower (py_strip (py_str py_repr JNull)) = ''none''" by code_simp
  have c: "py_lower (py_strip (py_str py_repr (JStr '' ''))) = ''''" by code_simp
  show ?thesis
    using is_found_cases [of py_repr "''Not Found ''" "[]" "[(''a'', JNull)]" True 0 "''1.5''"]
      is_found_cases [of py_repr "''''" "[]" "[(''a'', JStr '' '')]" True 0 "''1.5''"] a b c
    by simp
qed

section \<open>The merge rule\<close>

text \<open>
  C2. \<open>merge_extractions\<close> leaves \<open>base\<close> as it is when the update is not a dict. For an
  update that is a dict, the entry of the result under a key is the update's entry when
  that entry is a dict whose \<open>value\<close> is found, whatever \<open>base\<close> held under the key; in
  every other case (the key absent from the update, its entry not a dict, its value not
  found) it is the entry of \<open>base\<close>, unchanged.
\<close>

theorem merge_extractions_rule:
  "((\<forall>u. update \<noteq> JDict u) \<longrightarrow> merge_extractions repr base update = base)
   \<and> (distinct (map fst u) \<longrightarrow>
        (\<forall>k. map_of (merge_extractions repr base (JDict u)) k =
           (case map_of u k of
              None \<Rightarrow> map_of base k
            | Some val \<Rightarrow>
                if (\<exists>d. val = JDict d \<and> is_found repr (dict_get d ''value''))
                then Some val else map_of base k)))"
proof (intro conjI impI allI)
  assume "\<forall>u. update \<noteq> JDict u"
  then show "merge_extractions repr base update = base"
    by (cases update) (simp_all add: merge_extractions_def)
next
  fix k
  assume dist: "distinct (map fst u)"
  have cop: "\<And>val. copied repr val = (\<exists>d. val = JDict d \<and> is_found repr (dict_get d ''value''))"
    by (auto simp: copied_def split: json.splits)
  have "hits repr k (JDict u) =
          map snd (filter (\<lambda>(k, v). copied repr v) (filter (\<lambda>(k', v). k' = k) u))"
    by (simp add: hits_def found_entries_def conj_commute)
  also have "\<dots> = (case map_of u k of None \<Rightarrow> []
                    | Some val \<Rightarrow> if copied repr val then [val] else [])"
    by (simp add: filter_key_distinct [OF dist] split: option.splits)
  finally have h: "hits repr k (JDict u) =
     (case map_of u k of None \<Rightarrow> [] | Some val \<Rightarrow> if copied repr val then [val] else [])" .
  show "map_of (merge_extractions repr base (JDict u)) k =
           (case map_of u k of
              None \<Rightarrow> map_of base k
            | Some val \<Rightarrow>
                if (\<exists>d. val = JDict d \<and> is_found repr (dict_get d ''value''))
                then Some val else map_of base k)"
    unfolding merge_extractions_lookup h cop [symmetric]
    by (simp split: option.splits)
qed

theorem merge_extractions_rule_witness:
  "map_of (merge_extractions py_repr merge_base_ex (JDict merge_update_ex)) ''f1''
     = Some (JDict [(''value'', JStr ''X'')])
   \<and> map_of (merge_extractions py_repr merge_base_ex (JDict merge_update_ex)) ''f2''
     = Some (JDict [(''value'', JStr ''X'')])
   \<and> map_of (merge_extractions py_repr merge_base_ex (JDict merge_update_ex)) ''f3'' = None
   \<and> merge_extractions py_repr merge_base_ex (JList []) = merge_base_ex"
  using merge_extractions_rule [of "JList []" py_repr merge_base_ex merge_update_ex]
    nb_X nb_nf
  by (simp add: dict_get_def merge_base_ex_def merge_update_ex_def)

text \<open>
  C3 (as stated, refuted). Two chunks that both find \<open>f1\<close>, with different values, merge
  to different results in the two orders: the chunk merged last wins.
\<close>

theorem merge_order_counterexample:
  "map_of (merge_chunks py_repr [] [chunk_a, chunk_c]) ''f1''
     \<noteq> map_of (merge_chunks py_repr [] [chunk_c, chunk_a]) ''f1''"
  by (simp add: merge_extractions_lookup hits_chunk_a hits_chunk_c)

text \<open>
  C3 (amended). When the chunk results agree on every entry that the merger copies (no key
  is found with two different entries), the merged result holds the same entry under
  every key in any order of the chunks, from any initial result. Two dicts are compared
  as Python compares them, by their entries and not by insertion order. With chunk A
  finding \<open>f1\<close> and chunk B reporting it \<open>not found\<close>, both orders keep A's entry.
\<close>

theorem merge_chunks_order:
  assumes perm: "mset us' = mset us"
    and agree: "\<forall>u \<in> set us. \<forall>u' \<in> set us. \<forall>k v v'.
        (k, v) \<in> set (found_entries repr u) \<longrightarrow> (k, v') \<in> set (found_entries repr u') \<longrightarrow> v = v'"
  shows "map_of (merge_chunks repr base us') = map_of (merge_chunks repr base us)
    \<and> map_of (merge_chunks repr base [chunk_a, chunk_b]) ''f1'' = Some (JDict [(''value'', JStr ''X'')])
    \<and> map_of (merge_chunks repr base [chunk_b, chunk_a]) ''f1'' = Some (JDict [(''value'', JStr ''X'')])"
proof (intro conjI)
  show "map_of (merge_chunks repr base us') = map_of (merge_chunks repr base us)"
  proof
    fix k
    define hs where "hs = concat (map (hits repr k) us)"
    define hs' where "hs' = concat (map (hits repr k) us')"
    have "set us' = set us" using perm by (rule mset_eq_setD)
    then have sets: "set hs' = set hs" by (simp add: hs_def hs'_def)
    have one: "v = v'" if "v \<in> set hs" "v' \<in> set hs" for v v'
    proof -
      from that(1) obtain u where u: "u \<in> set us" "v \<in> set (hits repr k u)"
        unfolding hs_def by auto
      from that(2) obtain u' where u': "u' \<in> set us" "v' \<in> set (hits repr k u')"
        unfolding hs_def by auto
      from u(2) have e: "(k, v) \<in> set (found_entries repr u)"
        by (auto simp: hits_def)
      from u'(2) have e': "(k, v') \<in> set (found_entries repr u')"
        by (auto simp: hits_def)
      from agree [rule_format, OF u(1) u'(1) e e'] show ?thesis .
    qed
    have "(if hs' = [] then map_of base k else Some (last hs'))
        = (if hs = [] then map_of base k else Some (last hs))"
    proof (cases "hs = []")
      case True
      with sets show ?thesis by simp
    next
      case False
      with sets have ne: "hs' \<noteq> []" by auto
      have "last hs \<in> set hs" by (rule last_in_set [OF False])
      moreover have "last hs' \<in> set hs" using last_in_set [OF ne] sets by simp
      ultimately
      have "last hs' = last hs" by (rule one [symmetric])
      with False ne show ?thesis by simp
    qed
    moreover have "map_of (merge_chunks repr base us') k
        = (if hs' = [] then map_of base k else Some (last hs'))"
      unfolding hs'_def by (simp only: merge_chunks_lookup Let_def)
    moreover have "map_of (merge_chunks repr base us) k
        = (if hs = [] then map_of base k else Some (last hs))"
      unfolding hs_def by (simp only: merge_chunks_lookup Let_def)
    ultimately show "map_of (merge_chunks repr base us') k = map_of (merge_chunks repr base us) k"
      by (simp only:)
  qed
next
  show "map_of (merge_chunks repr base [chunk_a, chunk_b]) ''f1'' = Some (JDict [(''value'', JStr ''X'')])"
    by (simp add: merge_extractions_lookup hits_chunk_a hits_chunk_b)
next
  show "map_of (merge_chunks repr base [chunk_b, chunk_a]) ''f1'' = Some (JDict [(''value'', JStr ''X'')])"
    by (simp add: merge_extractions_lookup hits_chunk_a hits_chunk_b)
qed

theorem merge_chunks_order_witness:
  "map_of (merge_chunks py_repr [] [chunk_d, chunk_b, chunk_a])
     = map_of (merge_chunks py_repr [] [chunk_a, chunk_b, chunk_d])
   \<and> map_of (merge_chunks py_repr [] [chunk_a, chunk_b, chunk_d]) ''f2''
     = Some (JDict [(''value'', JStr ''Y'')])"
proof -
  have p: "mset [chunk_d, chunk_b, chunk_a] = mset [chunk_a, chunk_b, chunk_d]"
    by (simp add: add.commute)
  have a: "\<forall>u \<in> set [chunk_a, chunk_b, chunk_d]. \<forall>u' \<in> set [chunk_a, chunk_b, chunk_d]. \<forall>k v v'.
        (k, v) \<in> set (found_entries py_repr u) \<longrightarrow> (k, v') \<in> set (found_entries py_repr u') \<longrightarrow> v = v'"
    by (simp add: found_chunk_a found_chunk_b found_chunk_d)
  have v: "map_of (merge_chunks py_repr [] [chunk_a, chunk_b, chunk_d]) ''f2''
     = Some (JDict [(''value'', JStr ''Y'')])"
    using nb_X nb_Y nb_nf
    by (simp add: merge_extractions_def chunk_a_def chunk_b_def chunk_d_def dict_get_def)
  from merge_chunks_order [OF p a, of "[]"] v show ?thesis by simp
qed

section \<open>Flattening pages\<close>

lemma flatten_loop_spec:
  "\<exists>k \<le> length ps.
     flatten_loop mx tl0 chunks ps = chunks @ map page_snippet (take k ps)
     \<and> (\<forall>j < k. tl0 + snippet_total (take (Suc j) ps) \<le> mx)
     \<and> (k < length ps \<longrightarrow> tl0 + snippet_total (take (Suc k) ps) > mx)"
proof (induction ps arbitrary: tl0 chunks)
  case Nil
  show ?case by simp
next
  case (Cons p ps)
  define t where "t = tl0 + int (length (page_snippet p))"
  show ?case
  proof (cases "t > mx")
    case True
    then have "flatten_loop mx tl0 chunks (p # ps) = chunks"
      by (simp add: t_def Let_def)
    moreover have "tl0 + snippet_total (take (Suc 0) (p # ps)) > mx"
      using True by (simp add: t_def snippet_total_def)
    ultimately show ?thesis
      by (intro exI [of _ 0]) simp
  next
    case False
    then have step: "flatten_loop mx tl0 chunks (p # ps)
        = flatten_loop mx t (chunks @ [page_snippet p]) ps"
      by (simp add: t_def Let_def)
    from Cons.IH [of t "chunks @ [page_snippet p]"]
    obtain k where k: "k \<le> length ps"
      "flatten_loop mx t (chunks @ [page_snippet p]) ps
         = (chunks @ [page_snippet p]) @ map page_snippet (take k ps)"
      "\<forall>j < k. t + snippet_total (take (Suc j) ps) \<le> mx"
      "k < length ps \<longrightarrow> t + snippet_total (take (Suc k) ps) > mx"
      by blast
    have tot: "\<And>j. tl0 + snippet_total (take (Suc j) (p # ps)) = t + snippet_total (take j ps)"
      by (simp add: t_def snippet_total_def)
    have "\<forall>j < Suc k. tl0 + snippet_total (take (Suc j) (p # ps)) \<le> mx"
    proof (intro allI impI)
      fix j assume "j < Suc k"
      show "tl0 + snippet_total (take (Suc j) (p # ps)) \<le> mx"
      proof (cases j)
        case 0
        with False show ?thesis by (simp add: t_def snippet_total_def)
      next
        case (Suc i)
        with \<open>j < Suc k\<close> k(3) show ?thesis by (simp only: tot)
      qed
    qed
    moreover have "Suc k < length (p # ps) \<longrightarrow>
        tl0 + snippet_total (take (Suc (Suc k)) (p # ps)) > mx"
      using k(4) by (simp only: tot) simp
    moreover have "flatten_loop mx tl0 chunks (p # ps)
        = chunks @ map page_snippet (take (Suc k) (p # ps))"
      using step k(2) by simp
    moreover have "Suc k \<le> length (p # ps)" using k(1) by simp
    ultimately show ?thesis by blast
  qed
qed

lemma snippet_short: "page_snippet short_page = ''[page 1]'' @ nl @ ''a'' @ nl"
  by (simp add: page_snippet_def short_page_def str_of_int_def py_strip_def py_isspace_def)

lemma snippet_long: "length (page_snippet long_page) = 32010"
  by (simp add: page_snippet_def long_page_def str_of_int_def py_strip_def py_isspace_def nl_def)

lemma flatten_short_long:
  "flatten_pages [short_page, long_page] default_max_chars = ''[page 1]'' @ nl @ ''a'' @ nl"
  by (simp add: flatten_pages_def default_max_chars_def Let_def snippet_short snippet_long nl_def)

lemma flatten_short:
  "flatten_pages [short_page] default_max_chars = ''[page 1]'' @ nl @ ''a'' @ nl"
  by (simp add: flatten_pages_def default_max_chars_def Let_def snippet_short nl_def)

text \<open>
  C9. \<open>flatten_pages\<close> joins the snippets \<open>[page N]\<close>, line feed, stripped text, line
  feed, of a prefix of the pages, in input order: the prefix ends before the first page
  whose snippet raises the running total of snippet lengths above \<open>max_chars\<close> (32000
  by default), and that page and all later ones are left out. The prompt of a chunk is
  built from this text alone, so a chunk with an over-long second page gets the prompt of
  its first page only.
\<close>

theorem flatten_pages_truncation:
  "(\<exists>k \<le> length pages.
      flatten_pages pages mx = py_join nl (map page_snippet (take k pages))
      \<and> (\<forall>j < k. snippet_total (take (Suc j) pages) \<le> mx)
      \<and> (k < length pages \<longrightarrow> snippet_total (take (Suc k) pages) > mx))
   \<and> page_snippet (n, t) = ''[page '' @ str_of_int n @ '']'' @ nl @ py_strip t @ nl
   \<and> chunk_prompt repr specs [short_page, long_page] = chunk_prompt repr specs [short_page]"
proof (intro conjI)
  from flatten_loop_spec [of pages mx 0 "[]"]
  show "\<exists>k \<le> length pages.
      flatten_pages pages mx = py_join nl (map page_snippet (take k pages))
      \<and> (\<forall>j < k. snippet_total (take (Suc j) pages) \<le> mx)
      \<and> (k < length pages \<longrightarrow> snippet_total (take (Suc k) pages) > mx)"
    unfolding flatten_pages_def by auto
next
  show "page_snippet (n, t) = ''[page '' @ str_of_int n @ '']'' @ nl @ py_strip t @ nl"
    by (simp add: page_snippet_def)
next
  show "chunk_prompt repr specs [short_page, long_page] = chunk_prompt repr specs [short_page]"
    unfolding chunk_prompt_def flatten_short_long flatten_short ..
qed

theorem flatten_pages_truncation_witness:
  "(\<exists>k \<le> length [short_page, long_page].
      flatten_pages [short_page, long_page] default_max_chars
        = py_join nl (map page_snippet (take k [short_page, long_page]))
      \<and> (\<forall>j < k. snippet_total (take (Suc j) [short_page, long_page]) \<le> default_max_chars)
      \<and> (k < length [short_page, long_page] \<longrightarrow>
           snippet_total (take (Suc k) [short_page, long_page]) > default_max_chars))
   \<and> flatten_pages [short_page, long_page] default_max_chars = ''[page 1]'' @ nl @ ''a'' @ nl"
  using flatten_pages_truncation [of "[short_page, long_page]" default_max_chars]
    flatten_short_long
  by blast

section \<open>The relevance filter\<close>











section \<open>Page numbering and the page limit\<close>

lemma load_pdf_loop_numbers:
  "1 \<le> idx \<Longrightarrow>
   map fst (load_pdf_loop mp ocr oall idx acc pgs) =
     map fst acc @ map (\<lambda>i. idx + int i)
       [0 ..< (if mp = 0 then length pgs else min (length pgs) (nat (mp - idx + 1)))]"
proof (induction pgs arbitrary: idx acc)
  case Nil
  show ?case by simp
next
  case (Cons pg rest)
  show ?case
  proof (cases "mp \<noteq> 0 \<and> idx > mp")
    case True
    then show ?thesis by simp
  next
    case False
    define n where "n = (if mp = 0 then length rest else min (length rest) (nat (mp - (idx + 1) + 1)))"
    have cnt: "(if mp = 0 then length (pg # rest) else min (length (pg # rest)) (nat (mp - idx + 1)))
        = Suc n"
      using False Cons.prems by (auto simp: n_def min_def)
    have shift: "map (\<lambda>i. idx + int i) [0 ..< Suc n] = idx # map (\<lambda>i. idx + 1 + int i) [0 ..< n]"
      by (simp add: upt_conv_Cons map_Suc_upt [symmetric] del: upt_Suc)
    have "1 \<le> idx + 1" using Cons.prems by simp
    from Cons.IH [OF this, of "acc @ [(idx, page_text ocr oall pg)]"] False
    show ?thesis
      unfolding cnt shift by (simp add: n_def)
  qed
qed

text \<open>
  C7 (as stated, refuted). With \<open>max_pages = 0\<close> the limit is switched off: both pages of
  a two-page PDF are loaded, more than \<open>max_pages\<close>.
\<close>

theorem load_pages_limit_counterexample:
  "\<not> int (length (load_pages_with_ocr (Pdf [text_page, text_page]) 0 failing_ocr False)) \<le> 0"
  by (simp add: load_pages_with_ocr_def)

text \<open>
  C7 (amended). For every PDF and every \<open>max_pages\<close>, the pages returned are numbered
  1, 2, 3, ... without gap. A positive \<open>max_pages\<close> bounds their number: the first
  \<open>max_pages\<close> pages are loaded and the rest are left out, which is not an error.
  \<open>max_pages = 0\<close> means no limit: every page is loaded.
\<close>

theorem load_pages_numbering:
  "map fst (load_pages_with_ocr (Pdf pgs) mp ocr oall)
     = map int [1 ..< Suc (if mp = 0 then length pgs else min (length pgs) (nat mp))]
   \<and> (0 < mp \<longrightarrow> length (load_pages_with_ocr (Pdf pgs) mp ocr oall) = min (length pgs) (nat mp))
   \<and> (mp = 0 \<longrightarrow> length (load_pages_with_ocr (Pdf pgs) mp ocr oall) = length pgs)"
proof -
  define k where "k = (if mp = 0 then length pgs else min (length pgs) (nat mp))"
  have "map fst (load_pages_with_ocr (Pdf pgs) mp ocr oall) = map (\<lambda>i. 1 + int i) [0 ..< k]"
    using load_pdf_loop_numbers [of 1 mp ocr oall "[]" pgs]
    by (simp add: load_pages_with_ocr_def k_def)
  also have "\<dots> = map int [1 ..< Suc k]"
    by (simp add: map_Suc_upt [symmetric] del: upt_Suc)
  finally have m: "map fst (load_pages_with_ocr (Pdf pgs) mp ocr oall) = map int [1 ..< Suc k]" .
  from arg_cong [OF m, of length]
  have l: "length (load_pages_with_ocr (Pdf pgs) mp ocr oall) = k" by simp
  have "0 < mp \<longrightarrow> k = min (length pgs) (nat mp)" by (simp add: k_def)
  moreover have "mp = 0 \<longrightarrow> k = length pgs" by (simp add: k_def)
  ultimately show ?thesis unfolding l m k_def [symmetric] by blast
qed

theorem load_pages_numbering_witness:
  "map fst (load_pages_with_ocr (Pdf [text_page, text_page, text_page]) 2 failing_ocr False)
     = [1, 2]
   \<and> length (load_pages_with_ocr (Pdf [text_page, text_page, text_page]) 2 failing_ocr False) = 2
   \<and> length (load_pages_with_ocr (Pdf [text_page, text_page, text_page]) 0 failing_ocr False) = 3"
  using load_pages_numbering [of "[text_page, text_page, text_page]" 2 failing_ocr False]
    load_pages_numbering [of "[text_page, text_page, text_page]" 0 failing_ocr False]
  by (simp add: upt_conv_Cons)

section \<open>Parsing the LLM response\<close>

lemma find_from_notin: "c \<notin> set xs \<Longrightarrow> find_from i c xs = - 1"
  by (induction xs arbitrary: i) auto

lemma find_from_first: "c \<notin> set pre \<Longrightarrow> find_from i c (pre @ c # rest) = int (i + length pre)"
  by (induction pre arbitrary: i) auto

lemma rfind_from_notin: "c \<notin> set xs \<Longrightarrow> rfind_from i seen c xs = seen"
  by (induction xs arbitrary: i seen) auto

lemma rfind_from_last:
  "c \<notin> set post \<Longrightarrow> rfind_from i seen c (pre @ c # post) = int (i + length pre)"
  by (induction pre arbitrary: i seen) (auto simp: rfind_from_notin)

lemma py_find_cases:
  "(c \<notin> set s \<and> py_find s c = - 1)
   \<or> (\<exists>pre rest. s = pre @ c # rest \<and> c \<notin> set pre \<and> py_find s c = int (length pre))"
proof (cases "c \<in> set s")
  case False
  then show ?thesis by (simp add: py_find_def find_from_notin)
next
  case True
  then obtain pre rest where "s = pre @ c # rest" "c \<notin> set pre"
    by (auto dest: split_list_first)
  then show ?thesis
    using find_from_first [of c pre 0 rest] by (auto simp: py_find_def)
qed

lemma py_rfind_cases:
  "(c \<notin> set s \<and> py_rfind s c = - 1)
   \<or> (\<exists>pre post. s = pre @ c # post \<and> c \<notin> set post \<and> py_rfind s c = int (length pre))"
proof (cases "c \<in> set s")
  case False
  then show ?thesis by (simp add: py_rfind_def rfind_from_notin)
next
  case True
  then obtain pre post where "s = pre @ c # post" "c \<notin> set post"
    by (auto dest: split_list_last)
  then show ?thesis
    using rfind_from_last [of c post 0 "- 1" pre] by (auto simp: py_rfind_def)
qed

lemma braces_found:
  assumes "c \<notin> set pre" and "d \<notin> set post"
  shows "py_find (pre @ [c] @ mid @ [d] @ post) c = int (length pre)"
    and "py_rfind (pre @ [c] @ mid @ [d] @ post) d = int (length pre + length mid + 1)"
    and "py_slice (pre @ [c] @ mid @ [d] @ post) (int (length pre))
           (int (length pre + length mid + 1) + 1) = [c] @ mid @ [d]"
proof -
  show "py_find (pre @ [c] @ mid @ [d] @ post) c = int (length pre)"
    using find_from_first [OF assms(1), of 0 "mid @ [d] @ post"] by (simp add: py_find_def)
  show "py_rfind (pre @ [c] @ mid @ [d] @ post) d = int (length pre + length mid + 1)"
    using rfind_from_last [OF assms(2), of 0 "- 1" "pre @ [c] @ mid"] by (simp add: py_rfind_def)
  show "py_slice (pre @ [c] @ mid @ [d] @ post) (int (length pre))
           (int (length pre + length mid + 1) + 1) = [c] @ mid @ [d]"
    by (simp add: py_slice_def nat_add_distrib)
qed

lemma braces_split:
  assumes "py_find s c \<noteq> - 1" and "py_rfind s d \<noteq> - 1" and "py_rfind s d > py_find s c"
  shows "\<exists>pre mid post. s = pre @ [c] @ mid @ [d] @ post \<and> c \<notin> set pre \<and> d \<notin> set post"
proof -
  from py_find_cases [of c s] assms(1)
  obtain pre rest where p: "s = pre @ c # rest" "c \<notin> set pre" "py_find s c = int (length pre)"
    by auto
  from py_rfind_cases [of d s] assms(2)
  obtain pre' post where q: "s = pre' @ d # post" "d \<notin> set post"
    "py_rfind s d = int (length pre')"
    by auto
  from assms(3) p(3) q(3) have len: "length pre < length pre'" by simp
  from p(1) q(1) have eq: "pre @ c # rest = pre' @ d # post" by simp
  from len eq obtain us where us: "pre' = pre @ us" "us \<noteq> []" "c # rest = us @ d # post"
    by (auto simp: append_eq_append_conv2)
  then obtain mid where "us = c # mid"
    by (cases us) auto
  with us p(1) q(1) have "s = pre @ [c] @ mid @ [d] @ post" by simp
  with p(2) q(2) show ?thesis by blast
qed

lemma loads_wrapped: "json_loads nesting_limit wrapped_response = Inl Json_decode_error"
  by code_simp

lemma loads_snippet:
  "json_loads nesting_limit ([CHR ''{''] @ wrapped_inner @ [CHR ''}''])
     = Inr (JDict [(''a'', JDict [(''value'', JInt 1)])])"
  by code_simp

lemma loads_array: "json_loads nesting_limit array_response = Inr (JList [JInt 1])"
  by code_simp

lemma long_number_Cons: "long_number = CHR ''1'' # replicate 4999 (CHR ''1'')"
proof -
  have "Suc 4999 = (5000 :: nat)" by simp
  with replicate_Suc [of 4999 "CHR ''1''"] show ?thesis
    by (simp only: long_number_def)
qed

lemma scan_long_integer:
  "int_max_str_digits \<le> m \<Longrightarrow>
   scan_literal (CHR ''1'' # replicate m (CHR ''1'')) = Inl Value_error"
  by (simp add: scan_literal_def scan_number_def scan_int_part_def scan_frac_def scan_exp_def
      is_digit_def takeWhile_replicate dropWhile_replicate)

lemma loads_long_number: "json_loads lim long_number = Inl Value_error"
proof -
  have ws: "skip_ws long_number = CHR ''1'' # replicate 4999 (CHR ''1'')"
    by (simp add: long_number_Cons skip_ws_def json_ws_def)
  have fuel: "2 * length long_number + 2 = Suc (2 * length long_number + 1)"
    by simp
  have "parse_value lim (Suc (2 * length long_number + 1)) 0
          (CHR ''1'' # replicate 4999 (CHR ''1'')) = Inl Value_error"
    by (simp add: scan_long_integer int_max_str_digits_def)
  then show ?thesis
    unfolding json_loads_def ws fuel by simp
qed

text \<open>
  C1 (as stated, refuted). A response that is well-formed JSON but not an object is
  returned as it is parsed: the text \<open>[1]\<close> yields a list, not a mapping. A response
  that is an integer literal of 5000 digits makes \<open>json.loads\<close> raise \<open>ValueError\<close>, which
  is not a \<open>JSONDecodeError\<close> and leaves \<open>parse_json_content\<close> uncaught.
\<close>

theorem parse_json_content_counterexample:
  "parse_json_content (json_loads nesting_limit) array_response = Inr (JList [JInt 1])
   \<and> \<not> is_dict (JList [JInt 1])
   \<and> parse_json_content (json_loads nesting_limit) long_number = Inl Value_error"
  by (simp add: parse_json_content_def loads_array loads_long_number is_dict_def)

text \<open>
  C1 (amended). On a response for which \<open>json.loads\<close> raises nothing but
  \<open>JSONDecodeError\<close>, \<open>parse_json_content\<close> returns the value of the strict parse when it
  succeeds. When that parse fails and the text has a first \<open>{\<close> before its last \<open>}\<close>, the
  result is the parse of the substring from the one to the other, or the empty mapping
  when that fails too; with no such pair of braces the result is the empty mapping. On
  such a response the function raises nothing, and it never raises a \<open>JSONDecodeError\<close>.
  The result is the empty mapping or a value that the decoder returned, which is a mapping
  only when the parsed text is a JSON object. The wrapped example is recovered by the
  fallback.
\<close>

theorem parse_json_content_spec:
  "(loads content = Inr v \<longrightarrow> parse_json_content loads content = Inr v)
   \<and> (loads content = Inl Json_decode_error \<longrightarrow>
        content = pre @ [CHR ''{''] @ mid @ [CHR ''}''] @ post \<longrightarrow>
        CHR ''{'' \<notin> set pre \<longrightarrow> CHR ''}'' \<notin> set post \<longrightarrow>
        (loads ([CHR ''{''] @ mid @ [CHR ''}'']) = Inr u \<longrightarrow>
           parse_json_content loads content = Inr u)
        \<and> (loads ([CHR ''{''] @ mid @ [CHR ''}'']) = Inl Json_decode_error \<longrightarrow>
             parse_json_content loads content = Inr (JDict [])))
   \<and> (loads content = Inl Json_decode_error \<longrightarrow>
        (\<forall>pre mid post. content = pre @ [CHR ''{''] @ mid @ [CHR ''}''] @ post \<longrightarrow>
           CHR ''{'' \<in> set pre \<or> CHR ''}'' \<in> set post) \<longrightarrow>
        parse_json_content loads content = Inr (JDict []))
   \<and> ((\<forall>s. sublist s content \<longrightarrow> loads s \<in> range Inr \<union> {Inl Json_decode_error}) \<longrightarrow>
        parse_json_content loads content \<in> range Inr)
   \<and> parse_json_content loads content \<noteq> Inl Json_decode_error
   \<and> (parse_json_content loads content = Inr w \<longrightarrow>
        w = JDict [] \<or> (\<exists>s. loads s = Inr w))
   \<and> json_loads nesting_limit wrapped_response = Inl Json_decode_error
   \<and> parse_json_content (json_loads nesting_limit) wrapped_response
        = Inr (JDict [(''a'', JDict [(''value'', JInt 1)])])"
proof (intro conjI impI)
  assume "loads content = Inr v"
  then show "parse_json_content loads content = Inr v"
    by (simp add: parse_json_content_def)
next
  assume fail: "loads content = Inl Json_decode_error"
    and c: "content = pre @ [CHR ''{''] @ mid @ [CHR ''}''] @ post"
    and pre: "CHR ''{'' \<notin> set pre" and post: "CHR ''}'' \<notin> set post"
    and inner: "loads ([CHR ''{''] @ mid @ [CHR ''}'']) = Inr u"
  note b = braces_found [OF pre post, of mid]
  show "parse_json_content loads content = Inr u"
    using fail inner unfolding parse_json_content_def c b Let_def
    by simp
next
  assume fail: "loads content = Inl Json_decode_error"
    and c: "content = pre @ [CHR ''{''] @ mid @ [CHR ''}''] @ post"
    and pre: "CHR ''{'' \<notin> set pre" and post: "CHR ''}'' \<notin> set post"
    and inner: "loads ([CHR ''{''] @ mid @ [CHR ''}'']) = Inl Json_decode_error"
  note b = braces_found [OF pre post, of mid]
  show "parse_json_content loads content = Inr (JDict [])"
    using fail inner unfolding parse_json_content_def c b Let_def
    by simp
next
  assume fail: "loads content = Inl Json_decode_error"
    and none: "\<forall>pre mid post. content = pre @ [CHR ''{''] @ mid @ [CHR ''}''] @ post \<longrightarrow>
           CHR ''{'' \<in> set pre \<or> CHR ''}'' \<in> set post"
  have "\<not> (py_find content (CHR ''{'') \<noteq> - 1 \<and> py_rfind content (CHR ''}'') \<noteq> - 1
          \<and> py_rfind content (CHR ''}'') > py_find content (CHR ''{''))"
    using braces_split [of content "CHR ''{''" "CHR ''}''"] none by blast
  then show "parse_json_content loads content = Inr (JDict [])"
    using fail unfolding parse_json_content_def Let_def by auto
next
  assume only: "\<forall>s. sublist s content \<longrightarrow> loads s \<in> range Inr \<union> {Inl Json_decode_error}"
  have l: "e = Json_decode_error" if "sublist s content" "loads s = Inl e" for s e
    using only [rule_format, OF that(1)] that(2) by auto
  have whole: "sublist content content" by simp
  have part: "sublist (py_slice content i j) content" for i j
  proof -
    have "content = take (nat i) content @ py_slice content i j
        @ drop (nat j - nat i) (drop (nat i) content)"
      unfolding py_slice_def by (simp only: append_take_drop_id)
    then show ?thesis unfolding sublist_def by blast
  qed
  show "parse_json_content loads content \<in> range Inr"
    unfolding parse_json_content_def Let_def
    by (auto split: sum.splits dest: l [OF whole] l [OF part])
next
  show "parse_json_content loads content \<noteq> Inl Json_decode_error"
    unfolding parse_json_content_def Let_def
    by (auto split: sum.splits)
next
  assume "parse_json_content loads content = Inr w"
  then show "w = JDict [] \<or> (\<exists>s. loads s = Inr w)"
    unfolding parse_json_content_def Let_def
    by (auto split: sum.splits if_splits)
next
  show "json_loads nesting_limit wrapped_response = Inl Json_decode_error"
    by (rule loads_wrapped)
next
  have w: "wrapped_response = ''Sure! '' @ [CHR ''{''] @ wrapped_inner @ [CHR ''}''] @ '' thanks''"
    by (simp add: wrapped_response_def wrapped_inner_def)
  have b1: "CHR ''{'' \<notin> set ''Sure! ''" by simp
  have b2: "CHR ''}'' \<notin> set '' thanks''" by simp
  note b = braces_found [OF b1 b2, of wrapped_inner]
  show "parse_json_content (json_loads nesting_limit) wrapped_response
        = Inr (JDict [(''a'', JDict [(''value'', JInt 1)])])"
    using loads_wrapped loads_snippet
    unfolding parse_json_content_def Let_def
    unfolding w b
    by simp
qed

theorem parse_json_content_spec_witness:
  "parse_json_content (json_loads nesting_limit) array_response = Inr (JList [JInt 1])
   \<and> parse_json_content (json_loads nesting_limit) wrapped_response
        = Inr (JDict [(''a'', JDict [(''value'', JInt 1)])])
   \<and> parse_json_content (json_loads nesting_limit) ''}{'' = Inr (JDict [])
   \<and> parse_json_content braces_only_loads ''}{'' \<in> range Inr"
proof -
  have n: "json_loads nesting_limit ''}{'' = Inl Json_decode_error" by code_simp
  have no: "\<forall>pre mid post. ''}{'' = pre @ [CHR ''{''] @ mid @ [CHR ''}''] @ post \<longrightarrow>
           CHR ''{'' \<in> set pre \<or> CHR ''}'' \<in> set post"
    by (auto simp: Cons_eq_append_conv)
  have w: "wrapped_response = ''Sure! '' @ [CHR ''{''] @ wrapped_inner @ [CHR ''}''] @ '' thanks''"
    by (simp add: wrapped_response_def wrapped_inner_def)
  have total: "\<forall>s. sublist s ''}{'' \<longrightarrow>
      braces_only_loads s \<in> range Inr \<union> {Inl Json_decode_error}"
    by (simp add: braces_only_loads_def)
  from parse_json_content_spec [of "json_loads nesting_limit" array_response "JList [JInt 1]"]
    loads_array
  have a: "parse_json_content (json_loads nesting_limit) array_response = Inr (JList [JInt 1])"
    by blast
  from parse_json_content_spec [of "json_loads nesting_limit" wrapped_response JNull
      "''Sure! ''" wrapped_inner "'' thanks''" "JDict [(''a'', JDict [(''value'', JInt 1)])]"]
    loads_wrapped loads_snippet w
  have b: "parse_json_content (json_loads nesting_limit) wrapped_response
        = Inr (JDict [(''a'', JDict [(''value'', JInt 1)])])"
    by simp
  from parse_json_content_spec [of "json_loads nesting_limit" "''}{''" JNull] n no
  have c: "parse_json_content (json_loads nesting_limit) ''}{'' = Inr (JDict [])"
    by blast
  from parse_json_content_spec [of braces_only_loads "''}{''" JNull] total
  have d: "parse_json_content braces_only_loads ''}{'' \<in> range Inr"
    by blast
  from a b c d show ?thesis by blast
qed

section \<open>Paths: splitting and joining\<close>

lemma split_loop_no_sep:
  "sep \<notin> set k \<Longrightarrow> split_loop sep cur (k @ r) = split_loop sep (cur @ k) r"
  by (induction k arbitrary: cur) auto

lemma split_loop_join:
  "ks \<noteq> [] \<Longrightarrow> \<forall>k \<in> set ks. sep \<notin> set k \<Longrightarrow>
   split_loop sep cur (py_join [sep] ks) = (cur @ hd ks) # tl ks"
proof (induction ks arbitrary: cur)
  case Nil
  then show ?case by simp
next
  case (Cons k ks)
  show ?case
  proof (cases ks)
    case Nil
    with Cons.prems split_loop_no_sep [of sep k cur "[]"] show ?thesis by simp
  next
    case (Cons k' rest)
    from Cons.prems have k: "sep \<notin> set k" by simp
    have "split_loop sep cur (py_join [sep] (k # k' # rest))
        = split_loop sep (cur @ k) (sep # py_join [sep] (k' # rest))"
      using split_loop_no_sep [OF k] by simp
    also have "\<dots> = (cur @ k) # split_loop sep [] (py_join [sep] (k' # rest))"
      by simp
    also have "split_loop sep [] (py_join [sep] (k' # rest)) = ([] @ hd (k' # rest)) # tl (k' # rest)"
      using Cons.IH [of "[]"] Cons.prems Cons by simp
    finally show ?thesis using Cons by simp
  qed
qed

lemma split_join:
  "ks \<noteq> [] \<Longrightarrow> \<forall>k \<in> set ks. CHR ''.'' \<notin> set k \<Longrightarrow> py_split (py_join ''.'' ks) (CHR ''.'') = ks"
  using split_loop_join [of ks "CHR ''.''" "[]"] by (simp add: py_split_def)

lemma py_join_snoc: "ps \<noteq> [] \<Longrightarrow> py_join sep (ps @ [k]) = py_join sep ps @ sep @ k"
  by (induction sep ps rule: py_join.induct) auto

lemma py_join_Nil_iff: "\<forall>k \<in> set ps. k \<noteq> [] \<Longrightarrow> (py_join sep ps = []) = (ps = [])"
  by (induction sep ps rule: py_join.induct) auto

lemma meta_prefix: "prefix ''meta.'' (py_join ''.'' (''meta'' # k # ks))"
  by (simp add: prefix_def)

section \<open>Writing at a path\<close>

lemma get_parts_dict_set_same:
  "get_parts (JDict (dict_set d k v)) (k # ks) = get_parts v ks"
  by (simp add: map_of_dict_set)

lemma get_parts_dict_set_other:
  "a \<noteq> k \<Longrightarrow> get_parts (JDict (dict_set d k v)) (a # ks) = get_parts (JDict d) (a # ks)"
  by (simp add: map_of_dict_set)

lemma leaf_ok_set_leaf: "leaf_ok (set_leaf leaf v p e) v p e"
  by (auto simp: leaf_ok_def set_leaf_def Let_def map_of_dict_set split: option.splits json.splits)

lemma leaf_ok_new_record: "new_record v p e = JDict r \<Longrightarrow> leaf_ok r v p e"
  by (auto simp: leaf_ok_def new_record_def)

text \<open>Writing at a path that leads to a dict succeeds and leaves the record there.\<close>

lemma set_parts_written:
  "dict_at t ks \<Longrightarrow> ks \<noteq> [] \<Longrightarrow>
   \<exists>t' leaf. set_parts t ks v p e = Some t' \<and> get_parts t' ks = Some (JDict leaf)
      \<and> leaf_ok leaf v p e"
proof (induction t ks v p e rule: set_parts.induct)
  case (1 cursor v p e)
  then show ?case by simp
next
  case (2 cursor part v p e)
  from "2.prems"(1) obtain d leaf where c: "cursor = JDict d" "map_of d part = Some (JDict leaf)"
    by (auto simp: dict_at_def is_dict_def split: json.splits option.splits)
  then show ?case
    by (simp add: map_of_dict_set leaf_ok_set_leaf)
next
  case (3 cursor part r rest v p e)
  from "3.prems"(1) obtain d child where c: "cursor = JDict d" "map_of d part = Some child"
    "dict_at child (r # rest)"
    by (auto simp: dict_at_def split: json.splits option.splits)
  from "3.IH" [of d] c
  obtain t' leaf where "set_parts child (r # rest) v p e = Some t'"
    "get_parts t' (r # rest) = Some (JDict leaf)" "leaf_ok leaf v p e"
    by auto
  with c show ?case
    by (simp add: map_of_dict_set)
qed

text \<open>Writing at a path changes nothing at a path that neither extends it nor leads to it.\<close>

lemma set_parts_frame:
  "set_parts t ks v p e = Some t' \<Longrightarrow> \<not> prefix ks ks' \<Longrightarrow> \<not> prefix ks' ks \<Longrightarrow>
   get_parts t' ks' = get_parts t ks'"
proof (induction t ks v p e arbitrary: t' ks' rule: set_parts.induct)
  case (1 cursor v p e)
  then show ?case by simp
next
  case (2 cursor part v p e)
  from "2.prems"(1) obtain d where c: "cursor = JDict d"
    by (cases cursor) auto
  from "2.prems"(2,3) obtain a as where k: "ks' = a # as" "a \<noteq> part"
    by (cases ks') auto
  from "2.prems"(1) c obtain x where "t' = JDict (dict_set d part x)"
    by (auto split: option.splits json.splits)
  with c k show ?case
    by (simp add: map_of_dict_set)
next
  case (3 cursor part r rest v p e)
  from "3.prems"(1) obtain d where c: "cursor = JDict d"
    by (cases cursor) auto
  define child where "child = (case map_of d part of Some ch \<Rightarrow> ch | None \<Rightarrow> JDict [])"
  from "3.prems"(1) c obtain child' where s: "set_parts child (r # rest) v p e = Some child'"
    "t' = JDict (dict_set d part child')"
    by (auto simp: child_def split: option.splits)
  from "3.prems"(3) obtain a as where k: "ks' = a # as"
    by (cases ks') auto
  show ?case
  proof (cases "a = part")
    case False
    with c k s show ?thesis by (simp add: map_of_dict_set)
  next
    case True
    with k "3.prems"(2,3) have np: "\<not> prefix (r # rest) as" "\<not> prefix as (r # rest)"
      by auto
    from "3.IH" [OF c s(1) [unfolded child_def] np]
    have ih: "get_parts child' as = get_parts child as"
      by (simp add: child_def)
    from np(2) have "as \<noteq> []" by auto
    then have "get_parts (JDict []) as = None"
      by (cases as) auto
    with ih True c k s show ?thesis
      by (auto simp: map_of_dict_set child_def split: option.splits)
  qed
qed

text \<open>The result of a write is a dict, and so is every node on the way to the written path
  that was one.\<close>

lemma set_parts_is_dict: "set_parts t ks v p e = Some t' \<Longrightarrow> is_dict t'"
  by (induction t ks v p e rule: set_parts.induct)
     (auto simp: is_dict_def split: json.splits option.splits)

lemma set_parts_keeps_dicts:
  "set_parts t ks v p e = Some t' \<Longrightarrow> prefix ks' ks \<Longrightarrow> dict_at t ks' \<Longrightarrow> dict_at t' ks'"
proof (induction t ks v p e arbitrary: t' ks' rule: set_parts.induct)
  case (1 cursor v p e)
  then show ?case by simp
next
  case (2 cursor part v p e)
  from "2.prems"(1) obtain d where c: "cursor = JDict d"
    by (cases cursor) auto
  from "2.prems"(1) c obtain x where x: "t' = JDict (dict_set d part x)" "is_dict x"
    by (auto simp: is_dict_def new_record_def split: option.splits json.splits)
  from "2.prems"(2) have "ks' = [] \<or> ks' = [part]"
    by (cases ks') auto
  with x show ?case
    by (auto simp: dict_at_def is_dict_def map_of_dict_set)
next
  case (3 cursor part r rest v p e)
  from "3.prems"(1) obtain d where c: "cursor = JDict d"
    by (cases cursor) auto
  define child where "child = (case map_of d part of Some ch \<Rightarrow> ch | None \<Rightarrow> JDict [])"
  from "3.prems"(1) c obtain child' where s: "set_parts child (r # rest) v p e = Some child'"
    "t' = JDict (dict_set d part child')"
    by (auto simp: child_def split: option.splits)
  show ?case
  proof (cases ks')
    case Nil
    with s show ?thesis by (simp add: dict_at_def is_dict_def)
  next
    case (Cons a as)
    with "3.prems"(2) have a: "a = part" "prefix as (r # rest)" by auto
    from "3.prems"(3) Cons a c have "dict_at child as"
      by (auto simp: dict_at_def child_def split: option.splits)
    from "3.IH" [OF c s(1) [unfolded child_def] a(2)] this
    have "dict_at child' as" by (simp add: child_def)
    with Cons a s show ?thesis
      by (simp add: dict_at_def map_of_dict_set)
  qed
qed

lemma set_parts_preserves:
  assumes "set_parts t ks v p e = Some t'" and "dict_at t ks'" and "\<not> strict_prefix ks ks'"
  shows "dict_at t' ks'"
proof (cases "prefix ks' ks")
  case True
  with assms show ?thesis by (simp add: set_parts_keeps_dicts)
next
  case False
  moreover from assms(3) False have "\<not> prefix ks ks'"
    by (auto simp: strict_prefix_def)
  ultimately have "get_parts t' ks' = get_parts t ks'"
    using assms(1) by (simp add: set_parts_frame)
  with assms(2) show ?thesis by (simp add: dict_at_def)
qed

section \<open>The fields of a template\<close>

lemma is_field_dict_at: "is_field d ks \<Longrightarrow> dict_at (JDict d) ks"
  by (induction d ks rule: is_field.induct)
     (auto simp: dict_at_def is_dict_def split: option.splits json.splits)

lemma is_field_no_extension: "is_field d ks \<Longrightarrow> is_field d ks' \<Longrightarrow> prefix ks ks' \<Longrightarrow> ks = ks'"
proof (induction d ks arbitrary: ks' rule: is_field.induct)
  case (1 d)
  then show ?case by simp
next
  case (2 d k)
  from "2.prems"(3) obtain r where r: "ks' = k # r" by (auto simp: prefix_def)
  show ?case
  proof (cases r)
    case Nil
    with r show ?thesis by simp
  next
    case (Cons a as)
    with r "2.prems"(1,2) show ?thesis
      by (auto split: option.splits json.splits)
  qed
next
  case (3 d k a as)
  from "3.prems"(3) obtain r where r: "ks' = k # r" "prefix (a # as) r"
    by (auto simp: prefix_def)
  then obtain b bs where b: "r = b # bs" by (cases r) auto
  from "3.prems"(1) obtain sub where sub: "map_of d k = Some (JDict sub)" "is_field sub (a # as)"
    by (auto split: option.splits json.splits)
  with "3.prems"(2) r b have "is_field sub r"
    by auto
  from "3.IH" [OF sub(1) refl sub(2) this r(2)] r show ?case by simp
qed

lemma is_field_Cons_other:
  "k \<notin> fst ` set rest \<Longrightarrow> is_field rest ks \<Longrightarrow> is_field ((k, v) # rest) ks"
proof -
  assume k: "k \<notin> fst ` set rest" and f: "is_field rest ks"
  from f obtain a as where ks: "ks = a # as" by (cases ks) auto
  with f have "map_of rest a \<noteq> None"
    by (cases as) (auto split: option.splits)
  then have "a \<in> fst ` set rest" by (auto simp: map_of_eq_None_iff)
  with k have "a \<noteq> k" by auto
  with f ks show ?thesis by (cases as) auto
qed

text \<open>Every collected path is the dotted form of the parts that lead to a field.\<close>

lemma collect_fields_paths:
  "wf_fields d \<Longrightarrow> good_parts ps \<Longrightarrow> pfx = py_join ''.'' ps \<Longrightarrow>
   (path, label, typ) \<in> set (collect_fields d pfx) \<Longrightarrow>
   \<exists>ks. path = py_join ''.'' (ps @ ks) \<and> ks \<noteq> [] \<and> is_field d ks \<and> good_parts ks
      \<and> \<not> prefix ''meta.'' path"
proof (induction d pfx arbitrary: ps rule: collect_fields.induct)
  case (1 pfx)
  then show ?case by simp
next
  case (2 k v rest pfx)
  define p where "p = (if pfx \<noteq> [] then pfx @ ''.'' @ k else k)"
  from "2.prems"(1) have wf: "k \<noteq> []" "CHR ''.'' \<notin> set k" "k \<notin> fst ` set rest" "wf_fields rest"
    by simp_all
  have gk: "good_parts (ps @ [k])"
    using "2.prems"(2) wf by (simp add: good_parts_def)
  have "(pfx = []) = (ps = [])"
    using "2.prems"(2,3) py_join_Nil_iff [of ps "''.''"] by (simp add: good_parts_def)
  then have p_join: "p = py_join ''.'' (ps @ [k])"
    using "2.prems"(3) by (auto simp: p_def py_join_snoc)
  from "2.prems"(4) consider
      (head) "\<not> prefix ''meta.'' p" "(path, label, typ) \<in> set (case v of
                  JDict dd \<Rightarrow>
                    if has_key dd ''expected_type''
                    then [(p, p, dict_get_default dd ''expected_type'' (JStr []))]
                    else collect_fields dd p
                | _ \<Rightarrow> [])"
    | (tail) "(path, label, typ) \<in> set (collect_fields rest pfx)"
    by (auto simp: p_def Let_def split: if_splits)
  then show ?case
  proof cases
    case tail
    from "2.IH"(2) [OF p_def wf(4) "2.prems"(2,3) tail]
    obtain ks where ks: "path = py_join ''.'' (ps @ ks)" "ks \<noteq> []" "is_field rest ks"
      "good_parts ks" "\<not> prefix ''meta.'' path"
      by blast
    from is_field_Cons_other [OF wf(3) ks(3)] ks show ?thesis by blast
  next
    case head
    from head(2) obtain dd where v: "v = JDict dd"
      by (cases v) auto
    show ?thesis
    proof (cases "has_key dd ''expected_type''")
      case True
      with head(2) v have "path = p" by simp
      moreover have "is_field ((k, v) # rest) [k]" using v True by simp
      moreover have "good_parts [k]" using wf by (simp add: good_parts_def)
      ultimately show ?thesis using p_join head(1) by (intro exI [of _ "[k]"]) simp
    next
      case False
      with head(2) v have mem: "(path, label, typ) \<in> set (collect_fields dd p)" by simp
      from "2.prems"(1) v False have wfd: "wf_fields dd" by simp
      from "2.IH"(1) [OF p_def head(1) v False wfd gk p_join mem]
      obtain ks where ks: "path = py_join ''.'' ((ps @ [k]) @ ks)" "ks \<noteq> []" "is_field dd ks"
        "good_parts ks" "\<not> prefix ''meta.'' path"
        by blast
      from ks(2) obtain a as where "ks = a # as" by (cases ks) auto
      with ks(3) v False have "is_field ((k, v) # rest) (k # ks)" by simp
      moreover have "good_parts (k # ks)" using ks(4) wf by (simp add: good_parts_def)
      ultimately show ?thesis using ks(1,5) by (intro exI [of _ "k # ks"]) simp
    qed
  qed
qed

section \<open>The fill step\<close>

lemma fill_fields_entries:
  assumes inc: "\<And>a b. a \<in> F \<Longrightarrow> b \<in> F \<Longrightarrow> prefix a b \<Longrightarrow> a = b"
    and good: "\<And>a. a \<in> F \<Longrightarrow> a \<noteq> [] \<and> good_parts a"
  shows "\<forall>f \<in> set fs. \<exists>ks \<in> F. fst f = py_join ''.'' ks \<Longrightarrow> \<forall>ks \<in> F. dict_at t ks \<Longrightarrow>
     \<exists>out. fill_fields (JDict res) t fs = Some out \<and> (\<forall>ks \<in> F. dict_at out ks)
       \<and> (\<forall>ks \<in> F. if py_join ''.'' ks \<in> fst ` set fs
             then (\<exists>leaf. get_parts out ks = Some (JDict leaf)
                    \<and> leaf_ok leaf (payload_value res (py_join ''.'' ks))
                         (payload_page res (py_join ''.'' ks)) (payload_excerpt res (py_join ''.'' ks)))
             else get_parts out ks = get_parts t ks)"
proof (induction fs arbitrary: t)
  case Nil
  then show ?case by simp
next
  case (Cons f fs)
  obtain path label ty where f: "f = (path, label, ty)" by (cases f)
  from Cons.prems(1) f obtain ks0 where ks0: "ks0 \<in> F" "path = py_join ''.'' ks0"
    by auto
  from good [OF ks0(1)] have g0: "ks0 \<noteq> []" "\<forall>k \<in> set ks0. CHR ''.'' \<notin> set k"
    by (simp_all add: good_parts_def)
  have split: "py_split path (CHR ''.'') = ks0"
    unfolding ks0(2) by (rule split_join [OF g0])
  have inj: "ks = ks0" if "ks \<in> F" "py_join ''.'' ks = path" for ks
  proof -
    from good [OF that(1)] have "ks \<noteq> []" "\<forall>k \<in> set ks. CHR ''.'' \<notin> set k"
      by (simp_all add: good_parts_def)
    from split_join [OF this] that(2) split show ?thesis by simp
  qed
  from Cons.prems(2) ks0(1) have "dict_at t ks0" by blast
  from set_parts_written [OF this g0(1)]
  obtain t1 leaf1 where w: "set_parts t ks0 (payload_value res path) (payload_page res path)
        (payload_excerpt res path) = Some t1"
    "get_parts t1 ks0 = Some (JDict leaf1)"
    "leaf_ok leaf1 (payload_value res path) (payload_page res path) (payload_excerpt res path)"
    by blast
  have step: "fill_fields (JDict res) t (f # fs) = fill_fields (JDict res) t1 fs"
    using w(1) f split by (simp add: set_path_def)
  have d1: "\<forall>ks \<in> F. dict_at t1 ks"
  proof
    fix ks assume ks: "ks \<in> F"
    have "\<not> strict_prefix ks0 ks"
      using inc [OF ks0(1) ks] by (auto simp: strict_prefix_def)
    with set_parts_preserves [OF w(1)] Cons.prems(2) ks show "dict_at t1 ks" by blast
  qed
  from Cons.prems(1) have "\<forall>f \<in> set fs. \<exists>ks \<in> F. fst f = py_join ''.'' ks" by simp
  from Cons.IH [OF this d1]
  obtain out where out: "fill_fields (JDict res) t1 fs = Some out" "\<forall>ks \<in> F. dict_at out ks"
    "\<forall>ks \<in> F. if py_join ''.'' ks \<in> fst ` set fs
             then (\<exists>leaf. get_parts out ks = Some (JDict leaf)
                    \<and> leaf_ok leaf (payload_value res (py_join ''.'' ks))
                         (payload_page res (py_join ''.'' ks)) (payload_excerpt res (py_join ''.'' ks)))
             else get_parts out ks = get_parts t1 ks"
    by blast
  have "\<forall>ks \<in> F. if py_join ''.'' ks \<in> fst ` set (f # fs)
             then (\<exists>leaf. get_parts out ks = Some (JDict leaf)
                    \<and> leaf_ok leaf (payload_value res (py_join ''.'' ks))
                         (payload_page res (py_join ''.'' ks)) (payload_excerpt res (py_join ''.'' ks)))
             else get_parts out ks = get_parts t ks"
  proof
    fix ks assume ks: "ks \<in> F"
    show "if py_join ''.'' ks \<in> fst ` set (f # fs)
             then (\<exists>leaf. get_parts out ks = Some (JDict leaf)
                    \<and> leaf_ok leaf (payload_value res (py_join ''.'' ks))
                         (payload_page res (py_join ''.'' ks)) (payload_excerpt res (py_join ''.'' ks)))
             else get_parts out ks = get_parts t ks"
    proof (cases "py_join ''.'' ks \<in> fst ` set fs")
      case True
      with out(3) ks show ?thesis by auto
    next
      case False
      with out(3) ks have same: "get_parts out ks = get_parts t1 ks" by auto
      show ?thesis
      proof (cases "py_join ''.'' ks = path")
        case True
        with inj [OF ks] have "ks = ks0" by simp
        with same w True f show ?thesis by simp
      next
        case ne: False
        then have neq: "ks \<noteq> ks0" using ks0(2) by auto
        have "\<not> prefix ks0 ks" "\<not> prefix ks ks0"
          using inc [OF ks0(1) ks] inc [OF ks ks0(1)] neq by auto
        from set_parts_frame [OF w(1) this] same False ne f show ?thesis by simp
      qed
    qed
  qed
  with step out(1,2) show ?case by simp
qed

lemma set_meta:
  "(case map_of d ''meta'' of Some m \<Rightarrow> is_dict m | None \<Rightarrow> True) \<Longrightarrow>
   \<exists>m'. set_parts (JDict d) [''meta'', k] v p e = Some (JDict (dict_set d ''meta'' (JDict m')))"
  by (auto simp: is_dict_def new_record_def split: option.splits json.splits)

lemma split_meta:
  "py_split ''meta.file_type'' (CHR ''.'') = [''meta'', ''file_type'']"
  "py_split ''meta.file_name'' (CHR ''.'') = [''meta'', ''file_name'']"
  by (simp_all add: py_split_def)

lemma fill_template_entries:
  assumes wf: "wf_template (JDict d)"
  shows "\<exists>out. fill_template (JDict d) (JDict res) ft fn = Some out
     \<and> (\<forall>(path, label, typ) \<in> set (collect_fields d []).
          entry_at out path (payload_value res path) (payload_page res path)
            (payload_excerpt res path))"
proof -
  define F where "F = {ks. is_field d ks \<and> ks \<noteq> [] \<and> good_parts ks
      \<and> \<not> prefix ''meta.'' (py_join ''.'' ks)}"
  from wf have wfd: "wf_fields d"
    and meta: "case map_of d ''meta'' of Some m \<Rightarrow> is_dict m | None \<Rightarrow> True"
    by (simp_all add: wf_template_def)
  have inc: "\<And>a b. a \<in> F \<Longrightarrow> b \<in> F \<Longrightarrow> prefix a b \<Longrightarrow> a = b"
    by (auto simp: F_def dest: is_field_no_extension)
  have good: "\<And>a. a \<in> F \<Longrightarrow> a \<noteq> [] \<and> good_parts a"
    by (simp add: F_def)
  have no_meta: "\<not> strict_prefix [''meta'', k] ks" if "ks \<in> F" for ks k
  proof
    assume "strict_prefix [''meta'', k] ks"
    then obtain r where "ks = ''meta'' # k # r"
      by (auto simp: strict_prefix_def prefix_def)
    with meta_prefix [of k r] that show False by (simp add: F_def)
  qed
  have d0: "\<forall>ks \<in> F. dict_at (JDict d) ks"
    by (simp add: F_def is_field_dict_at)
  from set_meta [OF meta, of "''file_type''" "JStr ft" JNull "JStr []"]
  obtain m1 where s1: "set_parts (JDict d) [''meta'', ''file_type''] (JStr ft) JNull (JStr [])
      = Some (JDict (dict_set d ''meta'' (JDict m1)))"
    by blast
  define d1 where "d1 = dict_set d ''meta'' (JDict m1)"
  have d1F: "\<forall>ks \<in> F. dict_at (JDict d1) ks"
    using set_parts_preserves [OF s1] d0 no_meta by (auto simp: d1_def)
  have "case map_of d1 ''meta'' of Some m \<Rightarrow> is_dict m | None \<Rightarrow> True"
    by (simp add: d1_def map_of_dict_set is_dict_def)
  from set_meta [OF this, of "''file_name''" "JStr fn" JNull "JStr []"]
  obtain m2 where s2: "set_parts (JDict d1) [''meta'', ''file_name''] (JStr fn) JNull (JStr [])
      = Some (JDict (dict_set d1 ''meta'' (JDict m2)))"
    by blast
  define t2 where "t2 = JDict (dict_set d1 ''meta'' (JDict m2))"
  have d2F: "\<forall>ks \<in> F. dict_at t2 ks"
    using set_parts_preserves [OF s2] d1F no_meta by (auto simp: t2_def)
  have flds: "\<forall>f \<in> set (collect_fields d []). \<exists>ks \<in> F. fst f = py_join ''.'' ks"
  proof
    fix f assume f: "f \<in> set (collect_fields d [])"
    obtain path label ty where p: "f = (path, label, ty)" by (cases f)
    from collect_fields_paths [OF wfd, of "[]" "[]" path label ty] f p
    obtain ks where "path = py_join ''.'' ks" "ks \<noteq> []" "is_field d ks" "good_parts ks"
      "\<not> prefix ''meta.'' path"
      by (auto simp: good_parts_def)
    with p show "\<exists>ks \<in> F. fst f = py_join ''.'' ks"
      by (auto simp: F_def)
  qed
  from fill_fields_entries [of F, OF inc good flds d2F, of res]
  obtain out where out: "fill_fields (JDict res) t2 (collect_fields d []) = Some out"
    "\<forall>ks \<in> F. if py_join ''.'' ks \<in> fst ` set (collect_fields d [])
             then (\<exists>leaf. get_parts out ks = Some (JDict leaf)
                    \<and> leaf_ok leaf (payload_value res (py_join ''.'' ks))
                         (payload_page res (py_join ''.'' ks)) (payload_excerpt res (py_join ''.'' ks)))
             else get_parts out ks = get_parts t2 ks"
    by blast
  have run: "fill_template (JDict d) (JDict res) ft fn = Some out"
    using s1 s2 out(1)
    by (simp add: fill_template_def set_path_def split_meta Let_def d1_def t2_def)
  have "\<forall>(path, label, typ) \<in> set (collect_fields d []).
          entry_at out path (payload_value res path) (payload_page res path)
            (payload_excerpt res path)"
  proof (clarify)
    fix path label ty
    assume m: "(path, label, ty) \<in> set (collect_fields d [])"
    with flds obtain ks where ks: "ks \<in> F" "path = py_join ''.'' ks" by force
    from good [OF ks(1)] have "ks \<noteq> []" "\<forall>k \<in> set ks. CHR ''.'' \<notin> set k"
      by (simp_all add: good_parts_def)
    from split_join [OF this] ks(2) have sp: "py_split path (CHR ''.'') = ks" by simp
    from m ks(2) have mem: "py_join ''.'' ks \<in> fst ` set (collect_fields d [])" by force
    from bspec [OF out(2) ks(1)] mem
    have "\<exists>leaf. get_parts out ks = Some (JDict leaf)
        \<and> leaf_ok leaf (payload_value res (py_join ''.'' ks))
             (payload_page res (py_join ''.'' ks)) (payload_excerpt res (py_join ''.'' ks))"
      by simp
    then obtain leaf where "get_parts out ks = Some (JDict leaf)"
      "leaf_ok leaf (payload_value res path) (payload_page res path) (payload_excerpt res path)"
      unfolding ks(2) [symmetric] by blast
    then show "entry_at out path (payload_value res path) (payload_page res path)
            (payload_excerpt res path)"
      by (simp add: entry_at_def get_path_def sp)
  qed
  with run show ?thesis by blast
qed

lemma join_inject:
  assumes "good_parts a" "good_parts b" "a \<noteq> []" "b \<noteq> []" "py_join ''.'' a = py_join ''.'' b"
  shows "a = b"
proof -
  from assms(1) have da: "\<forall>k \<in> set a. CHR ''.'' \<notin> set k" by (simp add: good_parts_def)
  from assms(2) have db: "\<forall>k \<in> set b. CHR ''.'' \<notin> set k" by (simp add: good_parts_def)
  have "a = py_split (py_join ''.'' a) (CHR ''.'')"
    by (rule split_join [OF assms(3) da, symmetric])
  also have "\<dots> = py_split (py_join ''.'' b) (CHR ''.'')"
    by (simp only: assms(5))
  also have "\<dots> = b"
    by (rule split_join [OF assms(4) db])
  finally show ?thesis .
qed

lemma is_field_hd: "is_field d ks \<Longrightarrow> hd ks \<in> fst ` set d"
proof -
  assume f: "is_field d ks"
  then obtain a as where ks: "ks = a # as" by (cases ks) auto
  with f have "map_of d a \<noteq> None" by (cases as) (auto split: option.splits)
  then have "a \<in> fst ` set d" by (auto simp: map_of_eq_None_iff)
  with ks show ?thesis by simp
qed

text \<open>No path is collected twice.\<close>

lemma collect_fields_distinct:
  "wf_fields d \<Longrightarrow> good_parts ps \<Longrightarrow> pfx = py_join ''.'' ps \<Longrightarrow>
   distinct (map fst (collect_fields d pfx))"
proof (induction d pfx arbitrary: ps rule: collect_fields.induct)
  case (1 pfx)
  show ?case by simp
next
  case (2 k v rest pfx)
  define p where "p = (if pfx \<noteq> [] then pfx @ ''.'' @ k else k)"
  define hd_fields where "hd_fields = (if prefix ''meta.'' p then []
          else (case v of
                  JDict dd \<Rightarrow>
                    if has_key dd ''expected_type''
                    then [(p, p, dict_get_default dd ''expected_type'' (JStr []))]
                    else collect_fields dd p
                | _ \<Rightarrow> []))"
  have unfold: "collect_fields ((k, v) # rest) pfx = hd_fields @ collect_fields rest pfx"
    unfolding hd_fields_def p_def by (simp add: Let_def)
  from "2.prems"(1) have wf: "k \<noteq> []" "CHR ''.'' \<notin> set k" "k \<notin> fst ` set rest" "wf_fields rest"
    by simp_all
  have gk: "good_parts (ps @ [k])"
    using "2.prems"(2) wf by (simp add: good_parts_def)
  have "(pfx = []) = (ps = [])"
    using "2.prems"(2,3) py_join_Nil_iff [of ps "''.''"] by (simp add: good_parts_def)
  then have p_join: "p = py_join ''.'' (ps @ [k])"
    using "2.prems"(3) by (auto simp: p_def py_join_snoc)
  have d_rest: "distinct (map fst (collect_fields rest pfx))"
    using "2.IH"(2) [OF p_def wf(4) "2.prems"(2,3)] .
  have hd_form: "\<exists>ks. path = py_join ''.'' (ps @ k # ks) \<and> good_parts ks"
    if "path \<in> fst ` set hd_fields" for path
  proof (cases "prefix ''meta.'' p")
    case True
    with that show ?thesis by (simp add: hd_fields_def)
  next
    case np: False
    show ?thesis
    proof (cases v)
      case (JDict dd)
      show ?thesis
      proof (cases "has_key dd ''expected_type''")
        case True
        with that np JDict have "path = p" by (simp add: hd_fields_def)
        with p_join show ?thesis by (intro exI [of _ "[]"]) (simp add: good_parts_def)
      next
        case False
        with that np JDict obtain label ty where
          mem: "(path, label, ty) \<in> set (collect_fields dd p)"
          by (auto simp: hd_fields_def)
        from "2.prems"(1) JDict False have wfd: "wf_fields dd" by simp
        from collect_fields_paths [OF wfd gk p_join mem]
        obtain ks where "path = py_join ''.'' ((ps @ [k]) @ ks)" "good_parts ks"
          by blast
        then show ?thesis by (intro exI [of _ ks]) simp
      qed
    qed (use that np in \<open>simp_all add: hd_fields_def\<close>)
  qed
  have d_hd: "distinct (map fst hd_fields)"
  proof (cases "prefix ''meta.'' p")
    case True
    then show ?thesis by (simp add: hd_fields_def)
  next
    case np: False
    show ?thesis
    proof (cases v)
      case (JDict dd)
      show ?thesis
      proof (cases "has_key dd ''expected_type''")
        case True
        with np JDict show ?thesis by (simp add: hd_fields_def)
      next
        case False
        from "2.prems"(1) JDict False have "wf_fields dd" by simp
        from "2.IH"(1) [OF p_def np JDict False this gk p_join]
        show ?thesis using np JDict False by (simp add: hd_fields_def)
      qed
    qed (use np in \<open>simp_all add: hd_fields_def\<close>)
  qed
  have disj: "fst ` set hd_fields \<inter> fst ` set (collect_fields rest pfx) = {}"
  proof (rule ccontr)
    assume "fst ` set hd_fields \<inter> fst ` set (collect_fields rest pfx) \<noteq> {}"
    then obtain path where a: "path \<in> fst ` set hd_fields"
      and b: "path \<in> fst ` set (collect_fields rest pfx)"
      by blast
    from hd_form [OF a] obtain ks where ks: "path = py_join ''.'' (ps @ k # ks)" "good_parts ks"
      by blast
    from b obtain label ty where "(path, label, ty) \<in> set (collect_fields rest pfx)"
      by auto
    from collect_fields_paths [OF wf(4) "2.prems"(2,3) this]
    obtain ks' where ks': "path = py_join ''.'' (ps @ ks')" "ks' \<noteq> []" "is_field rest ks'"
      "good_parts ks'"
      by blast
    have "ps @ k # ks = ps @ ks'"
    proof (rule join_inject)
      show "good_parts (ps @ k # ks)"
        using "2.prems"(2) ks(2) wf by (auto simp: good_parts_def)
      show "good_parts (ps @ ks')"
        using "2.prems"(2) ks'(4) by (auto simp: good_parts_def)
      show "py_join ''.'' (ps @ k # ks) = py_join ''.'' (ps @ ks')"
        using ks(1) ks'(1) by simp
    qed (use ks'(2) in simp_all)
    then have "hd ks' = k" by auto
    with is_field_hd [OF ks'(3)] wf(3) show False by simp
  qed
  show ?case
    unfolding unfold by (simp add: d_hd d_rest disj)
qed

lemma small_wf: "wf_template (JDict small_fields)"
  by code_simp

lemma small_collected:
  "collect_fields small_fields [] =
     [(''a.b'', ''a.b'', JStr ''string''), (''a.c'', ''a.c'', JStr ''list''),
      (''d'', ''d'', JStr ''bool'')]"
  by code_simp

lemma small_payloads:
  "payload_value small_result ''a.b'' = JStr ''Paris''"
  "payload_page small_result ''a.b'' = JInt 3"
  "payload_excerpt small_result ''a.b'' = JStr ''situ''"
  "map_of small_result ''a.c'' = None"
  "map_of small_result ''d'' = Some (JStr ''oops'')"
  by code_simp+

lemma null_reply_written:
  "(case fill_template (JDict small_fields) (JDict null_result) ''pdf'' ''doc.pdf'' of
      Some out \<Rightarrow> entry_at out ''d'' JNull JNull (JStr [])
                  \<and> \<not> entry_at out ''d'' (JStr ''not found'') JNull (JStr [])
    | None \<Rightarrow> False)"
  by code_simp

lemma list_reply_raises:
  "snd (mistral_main py_repr (Some ''k'') (json_loads nesting_limit) list_reply Some carnet_args)
     = Raised Attribute_error
   \<and> \<not> wrote_output
         (fst (mistral_main py_repr (Some ''k'') (json_loads nesting_limit) list_reply Some
                 carnet_args))"
  by code_simp

text \<open>
  C5 (as stated, refuted). The fill step writes the value of a payload as it is: an answer
  that reports the field \<open>d\<close> with the value \<open>null\<close>, which is not a found value, leaves
  \<open>null\<close> in the output and not the string \<open>not found\<close>. In the Mistral pipeline, which
  fills from the answer as parsed, an answer that is the list \<open>[1]\<close> makes the fill step
  raise, and no output is written.
\<close>

theorem fill_not_found_counterexample:
  "\<not> is_found py_repr JNull
   \<and> (case fill_template (JDict small_fields) (JDict null_result) ''pdf'' ''doc.pdf'' of
        Some out \<Rightarrow> entry_at out ''d'' JNull JNull (JStr [])
                    \<and> \<not> entry_at out ''d'' (JStr ''not found'') JNull (JStr [])
      | None \<Rightarrow> False)
   \<and> snd (mistral_main py_repr (Some ''k'') (json_loads nesting_limit) list_reply Some carnet_args)
       = Raised Attribute_error
   \<and> \<not> wrote_output
         (fst (mistral_main py_repr (Some ''k'') (json_loads nesting_limit) list_reply Some
                 carnet_args))"
  using null_reply_written list_reply_raises by simp

text \<open>
  C5 (amended). For every well-formed template (a dict whose keys are distinct, not empty
  and without a dot, with a dict, if anything, under \<open>meta\<close>) and every result that is a
  dict, the empty one included, the fill step succeeds and leaves, at the path of each
  field collected from the template, a record holding a value and, under \<open>source\<close>, a page
  and an excerpt. No path is collected twice, so each declared field has exactly one
  entry. The value written is the \<open>value\<close> of the field's payload, as it is; it is the
  string \<open>not found\<close> when the result does not mention the field, when the payload is not a
  dict and when the payload has no \<open>value\<close>. In a result merged from chunks by
  \<open>merge_extractions\<close>, every field that no chunk found gets \<open>not found\<close>.
\<close>

theorem fill_template_total:
  assumes "wf_template template"
  shows "\<exists>d out. template = JDict d
     \<and> fill_template template (JDict res) ft fn = Some out
     \<and> distinct (map fst (collect_fields d []))
     \<and> (\<forall>(path, label, typ) \<in> set (collect_fields d []).
          entry_at out path (payload_value res path) (payload_page res path)
            (payload_excerpt res path)
          \<and> (map_of res path = None \<longrightarrow> payload_value res path = JStr ''not found'')
          \<and> (\<forall>v. map_of res path = Some v \<and> \<not> is_dict v \<longrightarrow>
                payload_value res path = JStr ''not found'')
          \<and> (\<forall>payload. map_of res path = Some (JDict payload) \<longrightarrow>
                payload_value res path =
                  (case map_of payload ''value'' of Some v \<Rightarrow> v | None \<Rightarrow> JStr ''not found''))
          \<and> ((\<forall>u \<in> set us. hits repr path u = []) \<longrightarrow>
                payload_value (merge_chunks repr [] us) path = JStr ''not found''))"
proof -
  from assms obtain d where d: "template = JDict d" "wf_fields d"
    by (auto simp: wf_template_def split: json.splits)
  from assms d(1) have wf: "wf_template (JDict d)" by simp
  from fill_template_entries [OF wf, of res ft fn]
  obtain out where out: "fill_template (JDict d) (JDict res) ft fn = Some out"
    "\<forall>(path, label, typ) \<in> set (collect_fields d []).
          entry_at out path (payload_value res path) (payload_page res path)
            (payload_excerpt res path)"
    by blast
  have dist: "distinct (map fst (collect_fields d []))"
    by (rule collect_fields_distinct [OF d(2), of "[]"]) (simp_all add: good_parts_def)
  have nf: "payload_value r path = JStr ''not found''" if "map_of r path = None" for r path
    using that by (simp add: payload_value_def dict_get_default_def)
  have other: "payload_value res path = JStr ''not found''"
    if "map_of res path = Some v \<and> \<not> is_dict v" for path v
    using that by (cases v) (simp_all add: payload_value_def dict_get_default_def is_dict_def)
  have shaped: "payload_value res path =
      (case map_of payload ''value'' of Some v \<Rightarrow> v | None \<Rightarrow> JStr ''not found'')"
    if "map_of res path = Some (JDict payload)" for path payload
    using that by (simp add: payload_value_def dict_get_default_def)
  have merged: "payload_value (merge_chunks repr [] us) path = JStr ''not found''"
    if "\<forall>u \<in> set us. hits repr path u = []" for path
  proof -
    from that have "concat (map (hits repr path) us) = []" by simp
    then have "map_of (merge_chunks repr [] us) path = None"
      by (simp add: merge_chunks_lookup Let_def)
    then show ?thesis by (rule nf)
  qed
  have "\<forall>(path, label, typ) \<in> set (collect_fields d []).
          entry_at out path (payload_value res path) (payload_page res path)
            (payload_excerpt res path)
          \<and> (map_of res path = None \<longrightarrow> payload_value res path = JStr ''not found'')
          \<and> (\<forall>v. map_of res path = Some v \<and> \<not> is_dict v \<longrightarrow>
                payload_value res path = JStr ''not found'')
          \<and> (\<forall>payload. map_of res path = Some (JDict payload) \<longrightarrow>
                payload_value res path =
                  (case map_of payload ''value'' of Some v \<Rightarrow> v | None \<Rightarrow> JStr ''not found''))
          \<and> ((\<forall>u \<in> set us. hits repr path u = []) \<longrightarrow>
                payload_value (merge_chunks repr [] us) path = JStr ''not found'')"
  proof (clarify, intro conjI allI impI)
    fix path label ty
    assume m: "(path, label, ty) \<in> set (collect_fields d [])"
    with out(2) show "entry_at out path (payload_value res path) (payload_page res path)
            (payload_excerpt res path)"
      by blast
    show "payload_value res path = JStr ''not found''" if "map_of res path = None"
      using that by (rule nf)
    show "payload_value res path = JStr ''not found''"
      if "map_of res path = Some v \<and> \<not> is_dict v" for v
      using that by (rule other)
    show "payload_value res path =
        (case map_of payload ''value'' of Some v \<Rightarrow> v | None \<Rightarrow> JStr ''not found'')"
      if "map_of res path = Some (JDict payload)" for payload
      using that by (rule shaped)
    show "payload_value (merge_chunks repr [] us) path = JStr ''not found''"
      if "\<forall>u \<in> set us. hits repr path u = []"
      using that by (rule merged)
  qed
  with out(1) dist d(1) show ?thesis by blast
qed

theorem fill_template_total_witness:
  "\<exists>out. fill_template (JDict small_fields) (JDict small_result) ''pdf'' ''doc.pdf'' = Some out
     \<and> entry_at out ''a.b'' (JStr ''Paris'') (JInt 3) (JStr ''situ'')
     \<and> entry_at out ''a.c'' (JStr ''not found'') (payload_page small_result ''a.c'')
          (payload_excerpt small_result ''a.c'')"
proof -
  from fill_template_total [OF small_wf, of small_result "''pdf''" "''doc.pdf''" "[]" py_repr]
  obtain out where out:
    "fill_template (JDict small_fields) (JDict small_result) ''pdf'' ''doc.pdf'' = Some out"
    "\<forall>(path, label, typ) \<in> set (collect_fields small_fields []).
          entry_at out path (payload_value small_result path) (payload_page small_result path)
            (payload_excerpt small_result path)
          \<and> (map_of small_result path = None \<longrightarrow>
               payload_value small_result path = JStr ''not found'')"
    by auto
  from out(2) have "entry_at out ''a.b'' (JStr ''Paris'') (JInt 3) (JStr ''situ'')"
    unfolding small_collected by (simp add: small_payloads)
  moreover from out(2) have "entry_at out ''a.c'' (JStr ''not found'')
      (payload_page small_result ''a.c'') (payload_excerpt small_result ''a.c'')"
    unfolding small_collected by (auto simp: small_payloads)
  ultimately show ?thesis using out(1) by blast
qed

text \<open>
  C10 (as stated, refuted). A payload that is present but not a dict (here the string
  \<open>oops\<close> under \<open>d\<close>) is written with the empty string as its excerpt, not \<open>None\<close>.
\<close>

theorem fill_excerpt_counterexample:
  "(case fill_template (JDict small_fields) (JDict small_result) ''pdf'' ''doc.pdf'' of
      Some out \<Rightarrow> entry_at out ''d'' (JStr ''not found'') JNull (JStr [])
                  \<and> \<not> entry_at out ''d'' (JStr ''not found'') JNull JNull
    | None \<Rightarrow> False)"
  by code_simp

text \<open>
  C10 (amended). For every well-formed template and every result dict, a field that the
  result does not mention is written with value \<open>not found\<close>, page \<open>None\<close> and excerpt
  \<open>None\<close>; a field whose payload is not a dict is written with value \<open>not found\<close>, page
  \<open>None\<close> and the empty string as excerpt; a field whose payload is a dict is written
  with the payload's \<open>value\<close> (\<open>not found\<close> when absent), \<open>page\<close> and \<open>excerpt\<close>
  (\<open>None\<close> when absent).
\<close>

theorem fill_defaults:
  assumes "wf_template template"
  shows "\<exists>d out. template = JDict d
     \<and> fill_template template (JDict res) ft fn = Some out
     \<and> (\<forall>(path, label, typ) \<in> set (collect_fields d []).
          (map_of res path = None \<longrightarrow> entry_at out path (JStr ''not found'') JNull JNull)
          \<and> (\<forall>v. map_of res path = Some v \<and> \<not> is_dict v \<longrightarrow>
                entry_at out path (JStr ''not found'') JNull (JStr []))
          \<and> (\<forall>payload. map_of res path = Some (JDict payload) \<longrightarrow>
                entry_at out path (dict_get_default payload ''value'' (JStr ''not found''))
                  (dict_get payload ''page'') (dict_get payload ''excerpt'')))"
proof -
  from assms obtain d where d: "template = JDict d"
    by (auto simp: wf_template_def split: json.splits)
  from assms d have wf: "wf_template (JDict d)" by simp
  from fill_template_entries [OF wf, of res ft fn]
  obtain out where out: "fill_template (JDict d) (JDict res) ft fn = Some out"
    "\<forall>(path, label, typ) \<in> set (collect_fields d []).
          entry_at out path (payload_value res path) (payload_page res path)
            (payload_excerpt res path)"
    by blast
  have missing: "payload_value res path = JStr ''not found'' \<and> payload_page res path = JNull
      \<and> payload_excerpt res path = JNull" if "map_of res path = None" for path
    using that
    by (simp add: payload_value_def payload_page_def payload_excerpt_def dict_get_default_def
        dict_get_def)
  have other: "payload_value res path = JStr ''not found'' \<and> payload_page res path = JNull
      \<and> payload_excerpt res path = JStr []" if "map_of res path = Some v" "\<not> is_dict v" for path v
    using that
    by (cases v)
       (simp_all add: payload_value_def payload_page_def payload_excerpt_def dict_get_default_def
          is_dict_def)
  have shaped: "payload_value res path = dict_get_default payload ''value'' (JStr ''not found'')
      \<and> payload_page res path = dict_get payload ''page''
      \<and> payload_excerpt res path = dict_get payload ''excerpt''"
    if "map_of res path = Some (JDict payload)" for path payload
    using that
    by (simp add: payload_value_def payload_page_def payload_excerpt_def dict_get_default_def)
  have "\<forall>(path, label, typ) \<in> set (collect_fields d []).
          (map_of res path = None \<longrightarrow> entry_at out path (JStr ''not found'') JNull JNull)
          \<and> (\<forall>v. map_of res path = Some v \<and> \<not> is_dict v \<longrightarrow>
                entry_at out path (JStr ''not found'') JNull (JStr []))
          \<and> (\<forall>payload. map_of res path = Some (JDict payload) \<longrightarrow>
                entry_at out path (dict_get_default payload ''value'' (JStr ''not found''))
                  (dict_get payload ''page'') (dict_get payload ''excerpt''))"
  proof (clarify, intro conjI allI impI)
    fix path label ty
    assume m: "(path, label, ty) \<in> set (collect_fields d [])"
    with out(2) have e: "entry_at out path (payload_value res path) (payload_page res path)
            (payload_excerpt res path)"
      by blast
    show "entry_at out path (JStr ''not found'') JNull JNull" if "map_of res path = None"
      using e missing [OF that] by simp
    show "entry_at out path (JStr ''not found'') JNull (JStr [])"
      if "map_of res path = Some v \<and> \<not> is_dict v" for v
      using e other [of path v] that by simp
    show "entry_at out path (dict_get_default payload ''value'' (JStr ''not found''))
                  (dict_get payload ''page'') (dict_get payload ''excerpt'')"
      if "map_of res path = Some (JDict payload)" for payload
      using e shaped [OF that] by simp
  qed
  with out(1) d show ?thesis by blast
qed

theorem fill_defaults_witness:
  "\<exists>out. fill_template (JDict small_fields) (JDict small_result) ''pdf'' ''doc.pdf'' = Some out
     \<and> entry_at out ''a.c'' (JStr ''not found'') JNull JNull
     \<and> entry_at out ''d'' (JStr ''not found'') JNull (JStr [])"
proof -
  from fill_defaults [OF small_wf, of small_result "''pdf''" "''doc.pdf''"]
  obtain out where out:
    "fill_template (JDict small_fields) (JDict small_result) ''pdf'' ''doc.pdf'' = Some out"
    "\<forall>(path, label, typ) \<in> set (collect_fields small_fields []).
          (map_of small_result path = None \<longrightarrow> entry_at out path (JStr ''not found'') JNull JNull)
          \<and> (\<forall>v. map_of small_result path = Some v \<and> \<not> is_dict v \<longrightarrow>
                entry_at out path (JStr ''not found'') JNull (JStr []))
          \<and> (\<forall>payload. map_of small_result path = Some (JDict payload) \<longrightarrow>
                entry_at out path (dict_get_default payload ''value'' (JStr ''not found''))
                  (dict_get payload ''page'') (dict_get payload ''excerpt''))"
    by auto
  from out(2) have "entry_at out ''a.c'' (JStr ''not found'') JNull JNull"
    unfolding small_collected by (simp add: small_payloads)
  moreover from out(2) have "entry_at out ''d'' (JStr ''not found'') JNull (JStr [])"
    unfolding small_collected by (simp add: small_payloads is_dict_def)
  ultimately show ?thesis using out(1) by blast
qed

section \<open>A missing API key\<close>

lemma ocr_without_key:
  "key_absent api_key \<Longrightarrow> mistral_ocr_image api_key ocr_service = failing_ocr"
  by (simp add: mistral_ocr_image_def failing_ocr_def fun_eq_iff)

lemma carnet_pages:
  "load_pages_with_ocr (document carnet_args) (max_pages carnet_args) failing_ocr
     (ocr_all carnet_args) = [(1, ''Lot 12'')]"
  by code_simp

text \<open>
  C8. With no API key, the Gemini run exits at once with status 1: no page is loaded, no
  call is made and nothing is written. The Mistral run has no such check. It loads the
  pages first, every OCR call raising for want of the key and the loader swallowing the
  error, so that each page keeps its native text; the missing key is raised only by the
  call to the LLM, after which nothing is written.
\<close>

theorem missing_credential:
  assumes "key_absent api_key" and "template_json args = Some (JDict t)"
  shows "gemini_main repr api_key text_model loads llm ocr_service args = ([], Exited 1)
     \<and> mistral_main repr api_key loads chat ocr_service args =
         ([Pages_loaded (load_pages_with_ocr (document args) (max_pages args) failing_ocr
                           (ocr_all args))],
          Raised Environment_error)"
  using assms
  by (simp add: gemini_main_def mistral_main_def call_mistral_def ocr_without_key Let_def)

theorem missing_credential_witness:
  "gemini_main py_repr None ''gemini-pro'' (json_loads nesting_limit) id Some carnet_args
     = ([], Exited 1)
   \<and> mistral_main py_repr None (json_loads nesting_limit) fst Some carnet_args =
       ([Pages_loaded [(1, ''Lot 12'')]], Raised Environment_error)"
proof -
  have k: "key_absent None" by (simp add: key_absent_def)
  have t: "template_json carnet_args = Some (JDict small_fields)" by (simp add: carnet_args_def)
  from missing_credential [OF k t, of py_repr "''gemini-pro''" "json_loads nesting_limit" id Some
      fst]
  show ?thesis by (simp only: carnet_pages)
qed

end
